theory Spec2Isabelle
  imports Main "HOL-Library.Word"
begin

unbundle bit_operations_syntax

section \<open>Data model of accel/tcg/log\_instr.c\<close>

text \<open>
  The per-CPU instruction trace core.  \<open>target_ulong\<close>, \<open>hwaddr\<close> and
  \<open>uint64_t\<close> are 64-bit words, \<open>int\<close> and \<open>uint32_t\<close> are 32-bit words,
  the \<open>unsigned long\<close> statistics counters are 64-bit words, and ring
  indices and array lengths are natural numbers (a \<open>GArray\<close> is a list).
\<close>

type_synonym target_ulong = "64 word"
type_synonym hwaddr = "64 word"

datatype qemu_log_instr_loglevel_t =
    QEMU_LOG_INSTR_LOGLEVEL_NONE
  | QEMU_LOG_INSTR_LOGLEVEL_USER
  | QEMU_LOG_INSTR_LOGLEVEL_ALL

datatype log_event_state_t =
    LOG_EVENT_STATE_START
  | LOG_EVENT_STATE_STOP
  | LOG_EVENT_STATE_FLUSH

text \<open>
  \<open>log_event_t\<close>: a tagged union.  A \<open>REGDUMP\<close> event owns a heap-allocated
  register array \<open>reg_dump.gpr\<close>, held here by its address; every other
  target-defined event is kept by its identifier.
\<close>

datatype log_event_t =
    LOG_EVENT_STATE log_event_state_t target_ulong
  | LOG_EVENT_REGDUMP nat
  | LOG_EVENT_TARGET nat

record log_reginfo_t =
  reg_flags :: "32 word"
  reg_name :: string
  gpr :: target_ulong

record log_meminfo_t =
  mem_flags :: "32 word"
  op :: "32 word"
  addr :: target_ulong
  mem_paddr :: hwaddr
  mem_value :: "64 word"

text \<open>
  \<open>cpu_log_entry_t\<close>.  The fields from \<open>asid\<close> to \<open>insn_bytes\<close> are the
  scalar block between \<open>cpu_log_entry_startzero\<close> and
  \<open>cpu_log_entry_endzero\<close>; the four containers follow it.
\<close>

record cpu_log_entry_t =
  asid :: "16 word"
  flags :: "32 word"
  next_cpu_mode :: "32 word"
  intr_code :: "32 word"
  intr_vector :: target_ulong
  intr_faultaddr :: target_ulong
  pc :: target_ulong
  paddr :: hwaddr
  insn_size :: "32 word"
  insn_bytes :: "8 word list"
  regs :: "log_reginfo_t list"
  mem :: "log_meminfo_t list"
  events :: "log_event_t list"
  txt_buffer :: string

text \<open>The two entries of the \<open>trace_filters\<close> table, by the function they name.\<close>

datatype cpu_log_instr_filter_fn_t =
    Entry_mem_regions_filter
  | Entry_event_filter

record Range =
  lob :: "64 word"
  upb :: "64 word"

record qemu_log_instr_stats_t =
  entries_emitted :: "64 word"
  trace_start :: "64 word"
  trace_stop :: "64 word"

text \<open>
  The state one CPU works on.  The first block is \<open>cpu_log_instr_state_t\<close>;
  the second holds what the collaborators of the core answer for this CPU
  (\<open>cpu_in_user_mode\<close>, \<open>cpu_get_recent_pc\<close>,
  \<open>cpu_get_phys_page_attrs_debug\<close>, \<open>cpu_log_instr_event_regdump\<close>: the
  registers it dumps, or \<open>None\<close> when it reports failure); the third is
  the process-wide state the core reads (\<open>qemu_loglevel\<close>, \<open>debug_regions\<close>
  with \<open>None\<close> for the \<open>NULL\<close> pointer); the last records the effects
  that leave the core: the entries handed to \<open>trace_backend->emit_instr\<close>,
  the filter functions called, the live register-dump arrays with the next
  free address, and the addresses passed to \<open>g_array_free\<close>.  The
  three fields at the end are \<open>qemu_log_printf_buf\<close>, the staging area
  of the translation-time printf, which belongs to the first block.
\<close>

record cpu_state =
  loglevel :: qemu_log_instr_loglevel_t
  loglevel_active :: bool
  starting :: bool
  force_drop :: bool
  cpulog_flags :: "32 word"
  instr_info :: "cpu_log_entry_t list"
  ring_head :: nat
  ring_tail :: nat
  filters :: "cpu_log_instr_filter_fn_t list"
  stats :: qemu_log_instr_stats_t
  in_user_mode :: bool
  recent_pc :: target_ulong
  phys_page :: "64 word \<Rightarrow> hwaddr"
  regdump_regs :: "log_reginfo_t list option"
  qemu_loglevel :: "32 word"
  debug_regions :: "Range list option"
  emit_log :: "cpu_log_entry_t list"
  filter_calls :: "cpu_log_instr_filter_fn_t list"
  gpr_arrays :: "(nat \<times> log_reginfo_t list) list"
  next_gpr :: nat
  free_log :: "nat list"
  fmts :: "string list"
  printf_args :: "64 word list"
  valid_entries :: "64 word"

subsection \<open>Constants of the headers\<close>

text \<open>
  Modelled from the spec: the headers \<open>exec/log_instr.h\<close>,
  \<open>exec/log_instr_internal.h\<close> and \<open>qemu/log.h\<close> are not among the
  sources.  The entry flags \<open>HAS_INSTR_DATA\<close>, \<open>MODE_SWITCH\<close>,
  \<open>INTR_TRAP\<close>, \<open>INTR_ASYNC\<close> are disjoint bits, the per-CPU flag word
  has the one bit \<open>BUFFERED\<close>, the global log word has the bits \<open>INSTR\<close>
  and \<open>INSTR_U\<close>, and the filter enum has the two members
  \<open>MEM_REGIONS\<close> and \<open>EVENTS\<close>.
\<close>

definition LI_FLAG_INTR_TRAP :: "32 word" where
  "LI_FLAG_INTR_TRAP = 1"

definition LI_FLAG_INTR_ASYNC :: "32 word" where
  "LI_FLAG_INTR_ASYNC = 2"

definition LI_FLAG_MODE_SWITCH :: "32 word" where
  "LI_FLAG_MODE_SWITCH = 4"

definition LI_FLAG_HAS_INSTR_DATA :: "32 word" where
  "LI_FLAG_HAS_INSTR_DATA = 8"

definition QEMU_LOG_INSTR_FLAG_BUFFERED :: "32 word" where
  "QEMU_LOG_INSTR_FLAG_BUFFERED = 1"

definition QEMU_LOG_INSTR_CPU_USER :: "32 word" where
  "QEMU_LOG_INSTR_CPU_USER = 0"

definition CPU_LOG_INSTR :: "32 word" where
  "CPU_LOG_INSTR = push_bit 21 1"

definition CPU_LOG_INSTR_U :: "32 word" where
  "CPU_LOG_INSTR_U = push_bit 22 1"

text \<open>
  Modelled from the spec: \<open>qemu_loglevel_mask\<close> tests the global log word,
  and \<open>range_contains\<close> tests membership in an inclusive range; both come
  from headers outside the sources.
\<close>

definition qemu_loglevel_mask :: "32 word \<Rightarrow> cpu_state \<Rightarrow> bool" where
  "qemu_loglevel_mask b s = (qemu_loglevel s AND b \<noteq> 0)"

definition range_contains :: "Range \<Rightarrow> 64 word \<Rightarrow> bool" where
  "range_contains r x = (lob r \<le> x \<and> x \<le> upb r)"

subsection \<open>The current entry\<close>

text \<open>
  Modelled from the spec: \<open>get_cpu_log_entry\<close> is declared in a header
  outside the sources; \<open>ring_head\<close> names the entry being populated.  The
  C code indexes the ring unchecked, so every statement below about the
  current entry carries the ring invariant \<open>ring_ok\<close>.
\<close>

definition get_cpu_log_entry :: "cpu_state \<Rightarrow> cpu_log_entry_t" where
  "get_cpu_log_entry s = instr_info s ! ring_head s"

definition ring_ok :: "cpu_state \<Rightarrow> bool" where
  "ring_ok s = (ring_head s < length (instr_info s) \<and> ring_tail s < length (instr_info s))"

definition set_entry :: "nat \<Rightarrow> cpu_log_entry_t \<Rightarrow> cpu_state \<Rightarrow> cpu_state" where
  "set_entry i e s = s\<lparr>instr_info := (instr_info s)[i := e]\<rparr>"

subsection \<open>reset\_log\_buffer\<close>

definition g_array_free :: "nat \<Rightarrow> cpu_state \<Rightarrow> cpu_state" where
  "g_array_free p s =
     s\<lparr>gpr_arrays := filter (\<lambda>a. fst a \<noteq> p) (gpr_arrays s),
       free_log := free_log s @ [p]\<rparr>"

text \<open>The loop over \<open>entry->events\<close> that releases the register dumps.\<close>

fun free_regdumps :: "log_event_t list \<Rightarrow> cpu_state \<Rightarrow> cpu_state" where
  "free_regdumps [] s = s"
| "free_regdumps (LOG_EVENT_REGDUMP p # evts) s = free_regdumps evts (g_array_free p s)"
| "free_regdumps (evt # evts) s = free_regdumps evts s"

text \<open>The \<open>memset\<close> over the scalar block of the entry.\<close>

definition memset_startzero :: "cpu_log_entry_t \<Rightarrow> cpu_log_entry_t" where
  "memset_startzero e =
     e\<lparr>asid := 0, flags := 0, next_cpu_mode := 0, intr_code := 0,
       intr_vector := 0, intr_faultaddr := 0, pc := 0, paddr := 0,
       insn_size := 0, insn_bytes := map (\<lambda>b. 0) (insn_bytes e)\<rparr>"

definition reset_log_buffer :: "nat \<Rightarrow> cpu_state \<Rightarrow> cpu_state" where
  "reset_log_buffer i s =
     (let entry = instr_info s ! i;
          e1 = memset_startzero entry;
          e2 = e1\<lparr>regs := []\<rparr>;
          e3 = e2\<lparr>mem := []\<rparr>;
          s1 = free_regdumps (events e3) s;
          e4 = e3\<lparr>events := []\<rparr>;
          e5 = e4\<lparr>txt_buffer := []\<rparr>;
          s2 = set_entry i e5 s1
      in s2\<lparr>force_drop := False, starting := False\<rparr>)"

subsection \<open>Filters\<close>

text \<open>
  \<open>entry_mem_regions_filter\<close>: the inner loop over the memory records of
  the entry, then the outer loop over the ranges.  The outer loop stops at
  the first range that matches.
\<close>

fun mem_match :: "Range \<Rightarrow> log_meminfo_t list \<Rightarrow> bool" where
  "mem_match rng [] = False"
| "mem_match rng (minfo # ms) =
     (if range_contains rng (addr minfo) then True else mem_match rng ms)"

fun regions_match :: "Range list \<Rightarrow> cpu_log_entry_t \<Rightarrow> bool" where
  "regions_match [] entry = False"
| "regions_match (rng # rs) entry =
     (if range_contains rng (pc entry) then True
      else if mem_match rng (mem entry) then True
      else regions_match rs entry)"

definition entry_mem_regions_filter :: "Range list option \<Rightarrow> cpu_log_entry_t \<Rightarrow> bool" where
  "entry_mem_regions_filter dr entry =
     (case dr of None \<Rightarrow> True | Some rs \<Rightarrow> regions_match rs entry)"

definition entry_event_filter :: "cpu_log_entry_t \<Rightarrow> bool" where
  "entry_event_filter entry = (if length (events entry) > 0 then True else False)"

definition call_filter ::
  "Range list option \<Rightarrow> cpu_log_instr_filter_fn_t \<Rightarrow> cpu_log_entry_t \<Rightarrow> bool" where
  "call_filter dr fn entry =
     (case fn of
        Entry_mem_regions_filter \<Rightarrow> entry_mem_regions_filter dr entry
      | Entry_event_filter \<Rightarrow> entry_event_filter entry)"

subsection \<open>do\_instr\_commit and qemu\_log\_instr\_commit\<close>

text \<open>
  The filter loop of \<open>do_instr_commit\<close>: it returns whether every filter
  accepted the entry, and the filters it called, in order.
\<close>

fun run_filters ::
  "Range list option \<Rightarrow> cpu_log_instr_filter_fn_t list \<Rightarrow> cpu_log_entry_t
     \<Rightarrow> bool \<times> cpu_log_instr_filter_fn_t list" where
  "run_filters dr [] entry = (True, [])"
| "run_filters dr (fn # fns) entry =
     (if \<not> call_filter dr fn entry then (False, [fn])
      else (let (ok, called) = run_filters dr fns entry in (ok, fn # called)))"

text \<open>
  Modelled from the spec: the macro \<open>QEMU_LOG_INSTR_INC_STAT\<close> comes from
  a header outside the sources; it bumps the named counter of \<open>stats\<close>
  by one.
\<close>

definition inc_entries_emitted :: "cpu_state \<Rightarrow> cpu_state" where
  "inc_entries_emitted s = s\<lparr>stats := (stats s)\<lparr>entries_emitted := entries_emitted (stats s) + 1\<rparr>\<rparr>"

definition inc_trace_start :: "cpu_state \<Rightarrow> cpu_state" where
  "inc_trace_start s = s\<lparr>stats := (stats s)\<lparr>trace_start := trace_start (stats s) + 1\<rparr>\<rparr>"

definition inc_trace_stop :: "cpu_state \<Rightarrow> cpu_state" where
  "inc_trace_stop s = s\<lparr>stats := (stats s)\<lparr>trace_stop := trace_stop (stats s) + 1\<rparr>\<rparr>"

definition do_instr_commit :: "cpu_state \<Rightarrow> cpu_state" where
  "do_instr_commit s =
     (let entry = get_cpu_log_entry s in
      if force_drop s then s
      else
        (let (ok, called) = run_filters (debug_regions s) (filters s) entry;
             s1 = s\<lparr>filter_calls := filter_calls s @ called\<rparr>
         in if \<not> ok then s1
            else if cpulog_flags s1 AND QEMU_LOG_INSTR_FLAG_BUFFERED \<noteq> 0 then
              (let s2 = s1\<lparr>ring_head := (ring_head s1 + 1) mod length (instr_info s1)\<rparr>
               in if ring_tail s2 = ring_head s2
                  then s2\<lparr>ring_tail := (ring_tail s2 + 1) mod length (instr_info s2)\<rparr>
                  else s2)
            else inc_entries_emitted (s1\<lparr>emit_log := emit_log s1 @ [entry]\<rparr>)))"

definition qemu_log_instr_drop :: "cpu_state \<Rightarrow> cpu_state" where
  "qemu_log_instr_drop s = s\<lparr>force_drop := True\<rparr>"

definition qemu_log_instr_commit :: "cpu_state \<Rightarrow> cpu_state" where
  "qemu_log_instr_commit s =
     (let s1 = do_instr_commit s in reset_log_buffer (ring_head s1) s1)"

text \<open>The addresses of the register dumps held by a sequence of events.\<close>

fun regdump_ptrs :: "log_event_t list \<Rightarrow> nat list" where
  "regdump_ptrs [] = []"
| "regdump_ptrs (LOG_EVENT_REGDUMP p # evts) = p # regdump_ptrs evts"
| "regdump_ptrs (evt # evts) = regdump_ptrs evts"

subsection \<open>Adding and removing filters\<close>

text \<open>
  The \<open>trace_filters\<close> table, indexed by the values of
  \<open>cpu_log_instr_filter_t\<close>.  Modelled from the spec:
  \<open>LOG_INSTR_FILTER_MAX\<close> comes from a header outside the sources; it
  is the number of members of the filter enum, which is the length of the
  table.
\<close>

definition trace_filters :: "cpu_log_instr_filter_fn_t list" where
  "trace_filters = [Entry_mem_regions_filter, Entry_event_filter]"

definition LOG_INSTR_FILTER_MAX :: nat where
  "LOG_INSTR_FILTER_MAX = 2"

text \<open>The loop of \<open>qemu_log_instr_add_filter\<close> that looks for a duplicate.\<close>

fun filter_present :: "cpu_log_instr_filter_fn_t \<Rightarrow> cpu_log_instr_filter_fn_t list \<Rightarrow> bool" where
  "filter_present new_fn [] = False"
| "filter_present new_fn (fn # fns) = (if new_fn = fn then True else filter_present new_fn fns)"

definition add_filter_fn ::
  "nat \<Rightarrow> cpu_log_instr_filter_fn_t list \<Rightarrow> cpu_log_instr_filter_fn_t list" where
  "add_filter_fn flt fns =
     (if flt \<ge> LOG_INSTR_FILTER_MAX then fns
      else (let new_fn = trace_filters ! flt
            in if filter_present new_fn fns then fns else fns @ [new_fn]))"

definition qemu_log_instr_add_filter :: "nat \<Rightarrow> cpu_state \<Rightarrow> cpu_state" where
  "qemu_log_instr_add_filter flt s = s\<lparr>filters := add_filter_fn flt (filters s)\<rparr>"

text \<open>
  \<open>g_array_remove_index_fast\<close> of GLib: the last element is copied into
  the freed position unless the freed position is the last one, and the
  array gets shorter by one.
\<close>

definition g_array_remove_index_fast :: "nat \<Rightarrow> 'a list \<Rightarrow> 'a list" where
  "g_array_remove_index_fast i xs =
     butlast (if i \<noteq> length xs - 1 then xs[i := last xs] else xs)"

function remove_filter_loop ::
  "cpu_log_instr_filter_fn_t \<Rightarrow> nat \<Rightarrow> cpu_log_instr_filter_fn_t list
     \<Rightarrow> cpu_log_instr_filter_fn_t list" where
  "remove_filter_loop fn i fns =
     (if i < length fns
      then (if fns ! i = fn then g_array_remove_index_fast i fns
            else remove_filter_loop fn (i + 1) fns)
      else fns)"
  by pat_completeness auto
termination
  by (relation "measure (\<lambda>(fn, i, fns). length fns - i)") auto

declare remove_filter_loop.simps [simp del]

definition remove_filter_fn ::
  "nat \<Rightarrow> cpu_log_instr_filter_fn_t list \<Rightarrow> cpu_log_instr_filter_fn_t list" where
  "remove_filter_fn flt fns =
     (if flt \<ge> LOG_INSTR_FILTER_MAX then fns
      else remove_filter_loop (trace_filters ! flt) 0 fns)"

definition qemu_log_instr_remove_filter :: "nat \<Rightarrow> cpu_state \<Rightarrow> cpu_state" where
  "qemu_log_instr_remove_filter flt s = s\<lparr>filters := remove_filter_fn flt (filters s)\<rparr>"

text \<open>
  The filter lists a CPU can have: \<open>qemu_log_instr_init\<close> creates the
  list empty, and only the two functions above change it.
\<close>

inductive filters_reachable :: "cpu_log_instr_filter_fn_t list \<Rightarrow> bool" where
  init: "filters_reachable []"
| add: "filters_reachable fns \<Longrightarrow> filters_reachable (add_filter_fn flt fns)"
| remove: "filters_reachable fns \<Longrightarrow> filters_reachable (remove_filter_fn flt fns)"

subsection \<open>Start, stop and register-dump events\<close>

text \<open>
  Modelled from the spec: \<open>TARGET_PAGE_MASK\<close> is a constant of the target
  (4 KiB pages here), and \<open>cpu_get_phys_page_attrs_debug\<close> is the MMU
  collaborator, which answers \<open>-1\<close> for an address it cannot translate.
\<close>

definition TARGET_PAGE_MASK :: "64 word" where
  "TARGET_PAGE_MASK = NOT 0xFFF"

definition get_paddr :: "cpu_state \<Rightarrow> 64 word \<Rightarrow> hwaddr" where
  "get_paddr env vaddr =
     (let paddr_base = phys_page env (vaddr AND TARGET_PAGE_MASK)
      in if paddr_base \<noteq> - 1 then paddr_base + (vaddr AND NOT TARGET_PAGE_MASK) else - 1)"

definition emit_start_event ::
  "cpu_state \<Rightarrow> cpu_log_entry_t \<Rightarrow> target_ulong \<Rightarrow> cpu_log_entry_t" where
  "emit_start_event env entry pc' =
     (let event = LOG_EVENT_STATE LOG_EVENT_STATE_START pc';
          e1 = entry\<lparr>flags := flags entry AND NOT LI_FLAG_HAS_INSTR_DATA\<rparr>;
          e2 = e1\<lparr>pc := pc'\<rparr>;
          e3 = e2\<lparr>paddr := get_paddr env pc'\<rparr>
      in e3\<lparr>events := events e3 @ [event]\<rparr>)"

definition emit_stop_event :: "cpu_log_entry_t \<Rightarrow> target_ulong \<Rightarrow> cpu_log_entry_t" where
  "emit_stop_event entry pc' =
     entry\<lparr>events := events entry @ [LOG_EVENT_STATE LOG_EVENT_STATE_STOP pc']\<rparr>"

text \<open>
  \<open>emit_regdump_event\<close>.  The target's \<open>cpu_log_instr_event_regdump\<close>
  either reports failure, and nothing is appended, or it allocates the
  register array of the event and fills it.
\<close>

definition emit_regdump_event :: "nat \<Rightarrow> cpu_state \<Rightarrow> cpu_state" where
  "emit_regdump_event i s =
     (case regdump_regs s of
        None \<Rightarrow> s
      | Some rs \<Rightarrow>
          (let p = next_gpr s;
               s1 = s\<lparr>gpr_arrays := gpr_arrays s @ [(p, rs)], next_gpr := p + 1\<rparr>;
               entry = instr_info s1 ! i
           in set_entry i (entry\<lparr>events := events entry @ [LOG_EVENT_REGDUMP p]\<rparr>) s1))"

subsection \<open>do\_cpu\_loglevel\_switch\<close>

datatype error =
    Assertion_failed
  | Uninitialised_read
  | Undefined_shift
  | Out_of_bounds

text \<open>
  \<open>qemu_log_next_level_arg_t\<close>.  \<open>qemu_log_instr_global_switch\<close> leaves
  the \<open>pc\<close> field of the argument it allocates unwritten: \<open>None\<close>.
\<close>

record qemu_log_next_level_arg_t =
  next_level :: qemu_log_instr_loglevel_t
  arg_pc :: "target_ulong option"
  global :: bool

text \<open>The \<open>switch\<close> that decides whether logging is active at the next level.\<close>

definition next_level_active :: "qemu_log_next_level_arg_t \<Rightarrow> cpu_state \<Rightarrow> bool" where
  "next_level_active arg s =
     (case next_level arg of
        QEMU_LOG_INSTR_LOGLEVEL_NONE \<Rightarrow> False
      | QEMU_LOG_INSTR_LOGLEVEL_ALL \<Rightarrow> True
      | QEMU_LOG_INSTR_LOGLEVEL_USER \<Rightarrow>
          (if flags (get_cpu_log_entry s) AND LI_FLAG_MODE_SWITCH \<noteq> 0
           then next_cpu_mode (get_cpu_log_entry s) = QEMU_LOG_INSTR_CPU_USER
           else in_user_mode s))"

definition switch_pc :: "qemu_log_next_level_arg_t \<Rightarrow> cpu_state \<Rightarrow> error + target_ulong" where
  "switch_pc arg s =
     (if global arg then Inr (recent_pc s)
      else (case arg_pc arg of None \<Rightarrow> Inl Uninitialised_read | Some v \<Rightarrow> Inr v))"

text \<open>
  The two halves of \<open>do_cpu_loglevel_switch\<close>: the block under
  \<open>if (prev_level_active)\<close> once \<open>starting\<close> has been found clear
  (stop event, \<open>trace_stop\<close>, commit, reset of the slot that is current
  after the commit), and the block under \<open>if (next_level_active)\<close>.
\<close>

definition loglevel_switch_stop :: "target_ulong \<Rightarrow> cpu_state \<Rightarrow> cpu_state" where
  "loglevel_switch_stop pc' s =
     (let a = set_entry (ring_head s) (emit_stop_event (get_cpu_log_entry s) pc') s;
          b = inc_trace_stop a;
          c = do_instr_commit b
      in reset_log_buffer (ring_head c) c)"

definition loglevel_switch_start :: "target_ulong \<Rightarrow> cpu_state \<Rightarrow> cpu_state" where
  "loglevel_switch_start pc' s =
     (let a = s\<lparr>starting := True\<rparr>;
          b = set_entry (ring_head a) (emit_start_event a (get_cpu_log_entry a) pc') a;
          c = emit_regdump_event (ring_head b) b
      in inc_trace_start c)"

text \<open>
  The body of \<open>do_cpu_loglevel_switch\<close> after the level has been updated:
  the no-op test, the pending start that is discarded (\<open>goto done\<close>), the
  stop half and the start half.  \<open>log_assert\<close> is taken as a real
  assertion.
\<close>

definition loglevel_switch_events ::
  "qemu_log_instr_loglevel_t \<Rightarrow> bool \<Rightarrow> qemu_log_next_level_arg_t \<Rightarrow> bool \<Rightarrow> target_ulong
     \<Rightarrow> cpu_state \<Rightarrow> cpu_state" where
  "loglevel_switch_events prev_level prev_level_active arg active pc' s =
     (if next_level arg = prev_level \<and> prev_level_active = active then s
      else if prev_level_active \<and> starting s then reset_log_buffer (ring_head s) s
      else
        (let s1 = (if prev_level_active then loglevel_switch_stop pc' s else s)
         in if active then loglevel_switch_start pc' s1 else s1))"

definition do_cpu_loglevel_switch ::
  "qemu_log_next_level_arg_t \<Rightarrow> cpu_state \<Rightarrow> error + cpu_state" where
  "do_cpu_loglevel_switch arg s =
     (let prev_level = loglevel s;
          prev_level_active = loglevel_active s
      in case switch_pc arg s of
           Inl e \<Rightarrow> Inl e
         | Inr pc' \<Rightarrow>
             if \<not> qemu_loglevel_mask CPU_LOG_INSTR s then Inl Assertion_failed
             else
               (let active = next_level_active arg s;
                    s1 = s\<lparr>loglevel := next_level arg, loglevel_active := active\<rparr>
                in Inr (loglevel_switch_events prev_level prev_level_active arg active pc' s1)))"

subsection \<open>qemu\_log\_instr\_global\_switch\<close>

text \<open>
  The work \<open>async_safe_run_on_cpu\<close> queues: the CPU, the callback and its
  argument.  The function walks the CPU list (\<open>CPU_FOREACH\<close>) and returns
  the flag word together with the queued work.
\<close>

datatype run_on_cpu_func =
    Do_cpu_loglevel_switch
  | Do_global_loglevel_switch
  | Do_log_buffer_resize

type_synonym work_item = "nat \<times> run_on_cpu_func \<times> qemu_log_next_level_arg_t"

fun global_switch_loop :: "nat list \<Rightarrow> 32 word \<Rightarrow> work_item list \<Rightarrow> 32 word \<times> work_item list" where
  "global_switch_loop [] log_flags queue = (log_flags, queue)"
| "global_switch_loop (cpu # cpus) log_flags queue =
     (if log_flags AND CPU_LOG_INSTR_U \<noteq> 0 then
        global_switch_loop cpus (log_flags OR CPU_LOG_INSTR)
          (queue @ [(cpu, Do_global_loglevel_switch,
                     \<lparr>next_level = QEMU_LOG_INSTR_LOGLEVEL_USER, arg_pc = None, global = True\<rparr>)])
      else if log_flags AND CPU_LOG_INSTR \<noteq> 0 then
        global_switch_loop cpus log_flags
          (queue @ [(cpu, Do_global_loglevel_switch,
                     \<lparr>next_level = QEMU_LOG_INSTR_LOGLEVEL_ALL, arg_pc = None, global = True\<rparr>)])
      else
        global_switch_loop cpus log_flags
          (queue @ [(cpu, Do_global_loglevel_switch,
                     \<lparr>next_level = QEMU_LOG_INSTR_LOGLEVEL_NONE, arg_pc = None, global = True\<rparr>)]))"

definition qemu_log_instr_global_switch :: "nat list \<Rightarrow> 32 word \<Rightarrow> 32 word \<times> work_item list" where
  "qemu_log_instr_global_switch cpus log_flags = global_switch_loop cpus log_flags []"

text \<open>The level a flag word stands for, as the loop body decides it.\<close>

definition level_of_flags :: "32 word \<Rightarrow> qemu_log_instr_loglevel_t" where
  "level_of_flags log_flags =
     (if log_flags AND CPU_LOG_INSTR_U \<noteq> 0 then QEMU_LOG_INSTR_LOGLEVEL_USER
      else if log_flags AND CPU_LOG_INSTR \<noteq> 0 then QEMU_LOG_INSTR_LOGLEVEL_ALL
      else QEMU_LOG_INSTR_LOGLEVEL_NONE)"

subsection \<open>helper\_qemu\_log\_printf\_dump\<close>

text \<open>
  Modelled from the spec: the sizes of the staging area come from a header
  outside the sources (\<open>D = PRINTF_BUF_DEPTH\<close> format slots of
  \<open>A = PRINTF_ARG_MAX\<close> argument words each), and
  \<open>qemu_log_instr_enabled\<close> is the enabled test of the spec: the global
  bit and the per-CPU \<open>loglevel_active\<close>.
\<close>

definition QEMU_LOG_PRINTF_ARG_MAX :: nat where
  "QEMU_LOG_PRINTF_ARG_MAX = 8"

definition QEMU_LOG_PRINTF_BUF_DEPTH :: nat where
  "QEMU_LOG_PRINTF_BUF_DEPTH = 32"

definition qemu_log_instr_check_enabled :: "cpu_state \<Rightarrow> bool" where
  "qemu_log_instr_check_enabled s = (qemu_loglevel_mask CPU_LOG_INSTR s \<and> loglevel_active s)"

text \<open>\<open>ctz64\<close>: the number of trailing zero bits, 64 for the word 0.\<close>

definition ctz64 :: "64 word \<Rightarrow> nat" where
  "ctz64 w = length (takeWhile (\<lambda>i. \<not> bit w i) [0..<64])"

text \<open>
  The \<open>while (valid)\<close> loop.  The renderer
  \<open>g_string_append_printf_union_args\<close> formats through the C library's
  \<open>printf\<close>; it is the parameter \<open>render\<close>, which gives the text a
  format produces from the argument words that start at its slot.  The loop
  clears the bit it found with \<open>valid ^= (1 << ndx)\<close>, where \<open>1\<close> is
  an \<open>int\<close>: for \<open>ndx \<ge> 31\<close> the value \<open>1 << ndx\<close> is not
  representable and the shift is undefined.  For \<open>ndx < 31\<close> it is the
  positive value \<open>2 ^ ndx\<close>, which converts to 64 bits unchanged.
\<close>

lemma ctz64_bit:
  assumes "w \<noteq> 0"
  shows "ctz64 w < 64 \<and> bit w (ctz64 w)"
proof -
  from assms obtain n where n: "bit w n"
    by (auto simp: bit_eq_iff)
  then have "n < 64"
    by (auto dest: bit_imp_le_length)
  with n have "\<exists>i \<in> set [0..<64]. \<not> \<not> bit w i"
    by auto
  then have less: "length (takeWhile (\<lambda>i. \<not> bit w i) [0..<64]) < length [0..<64]"
  proof -
    have "takeWhile (\<lambda>i. \<not> bit w i) [0..<64] \<noteq> [0..<64]"
      using \<open>\<exists>i \<in> set [0..<64]. \<not> \<not> bit w i\<close>
      by (simp only: takeWhile_eq_all_conv) blast
    then have "length (takeWhile (\<lambda>i. \<not> bit w i) [0..<64]) \<noteq> length [0..<64]"
      by (metis takeWhile_eq_take take_all order_refl)
    then show ?thesis
      using length_takeWhile_le [of "\<lambda>i. \<not> bit w i" "[0..<64]"] by linarith
  qed
  from nth_length_takeWhile [OF this] less show ?thesis
    by (simp add: ctz64_def)
qed

lemma clear_lowest_less:
  assumes "bit (w :: 64 word) n"
  shows "unat (w XOR push_bit n 1) < unat w"
proof -
  let ?c = "w XOR push_bit n 1"
  have w: "w = ?c OR push_bit n 1"
    by (rule bit_word_eqI)
       (use assms in \<open>auto simp: bit_xor_iff bit_or_iff bit_exp_iff\<close>)
  have "?c \<le> ?c OR push_bit n 1"
    by (rule le_word_or2)
  then have le: "unat ?c \<le> unat w"
    using w by (simp add: word_le_nat_alt)
  have "\<not> bit ?c n"
    using assms by (auto simp: bit_xor_iff bit_exp_iff dest: bit_imp_le_length)
  then have "?c \<noteq> w"
    using assms by metis
  then have "unat ?c \<noteq> unat w"
    by (simp add: word_unat_eq_iff)
  with le show ?thesis
    by simp
qed

function printf_dump_loop ::
  "(string \<Rightarrow> 64 word list \<Rightarrow> string) \<Rightarrow> string list \<Rightarrow> 64 word list \<Rightarrow> 64 word \<Rightarrow> string
     \<Rightarrow> error + string" where
  "printf_dump_loop render fs args valid txt =
     (if valid = 0 then Inr txt
      else
        (let ndx = ctz64 valid
         in if ndx \<ge> 31 then Inl Undefined_shift
            else if ndx \<ge> length fs then Inl Out_of_bounds
            else printf_dump_loop render fs args (valid XOR push_bit ndx 1)
                   (txt @ render (fs ! ndx) (drop (ndx * QEMU_LOG_PRINTF_ARG_MAX) args))))"
  by pat_completeness auto
termination
proof (relation "measure (\<lambda>(render, fs, args, valid, txt). unat valid)")
  show "wf (measure (\<lambda>(render, fs, args, valid, txt). unat valid))"
    by simp
next
  fix render :: "string \<Rightarrow> 64 word list \<Rightarrow> string"
    and fs :: "string list" and args :: "64 word list" and valid :: "64 word"
    and buf :: string and ndx :: nat
  assume "valid \<noteq> 0" and ndx: "ndx = ctz64 valid"
  then have "bit valid ndx"
    using ctz64_bit [of valid] by simp
  then have "unat (valid XOR push_bit ndx 1) < unat valid"
    by (rule clear_lowest_less)
  then show "((render, fs, args, valid XOR push_bit ndx 1,
               buf @ render (fs ! ndx) (drop (ndx * QEMU_LOG_PRINTF_ARG_MAX) args)),
              (render, fs, args, valid, buf))
             \<in> measure (\<lambda>(render, fs, args, valid, txt). unat valid)"
    unfolding in_measure split_conv .
qed

declare printf_dump_loop.simps [simp del]

definition helper_qemu_log_printf_dump ::
  "(string \<Rightarrow> 64 word list \<Rightarrow> string) \<Rightarrow> cpu_state \<Rightarrow> error + cpu_state" where
  "helper_qemu_log_printf_dump render s =
     (let valid = valid_entries s;
          s1 = s\<lparr>valid_entries := 0\<rparr>
      in if \<not> qemu_log_instr_check_enabled s1 then Inr s1
         else
           (let entry = get_cpu_log_entry s1
            in case printf_dump_loop render (fmts s1) (printf_args s1) valid (txt_buffer entry) of
                 Inl e \<Rightarrow> Inl e
               | Inr txt \<Rightarrow> Inr (set_entry (ring_head s1) (entry\<lparr>txt_buffer := txt\<rparr>) s1)))"

subsection \<open>Example states\<close>

text \<open>
  A blank ring slot, a populated one (an instruction at \<open>0x1000\<close> with a
  register, a memory access, a pending START event and a register dump at
  address 5), and a CPU in streaming mode with a ring of four slots whose
  current slot is the populated one.
\<close>

definition entry_zero :: cpu_log_entry_t where
  "entry_zero =
     \<lparr>asid = 0, flags = 0, next_cpu_mode = 0, intr_code = 0, intr_vector = 0,
      intr_faultaddr = 0, pc = 0, paddr = 0, insn_size = 0, insn_bytes = [0, 0, 0, 0],
      regs = [], mem = [], events = [], txt_buffer = []\<rparr>"

definition entry_busy :: cpu_log_entry_t where
  "entry_busy =
     entry_zero\<lparr>flags := LI_FLAG_HAS_INSTR_DATA, pc := 0x1000, paddr := 0x1000,
       insn_size := 1, insn_bytes := [0x90, 0, 0, 0],
       regs := [\<lparr>reg_flags = 0, reg_name = ''rax'', gpr = 0x42\<rparr>],
       mem := [\<lparr>mem_flags = 0, op = 0, addr = 0x2000, mem_paddr = 0x2000, mem_value = 7\<rparr>],
       events := [LOG_EVENT_STATE LOG_EVENT_STATE_START 0x1000, LOG_EVENT_REGDUMP 5],
       txt_buffer := ''note''\<rparr>"

definition cpu_example :: cpu_state where
  "cpu_example =
     \<lparr>loglevel = QEMU_LOG_INSTR_LOGLEVEL_ALL, loglevel_active = True, starting = True,
      force_drop = False, cpulog_flags = 0,
      instr_info = [entry_busy, entry_zero, entry_zero, entry_zero],
      ring_head = 0, ring_tail = 0, filters = [Entry_event_filter],
      stats = \<lparr>entries_emitted = 0, trace_start = 1, trace_stop = 0\<rparr>,
      in_user_mode = False, recent_pc = 0x1000, phys_page = (\<lambda>v. v),
      regdump_regs = Some [\<lparr>reg_flags = 0, reg_name = ''x0'', gpr = 1\<rparr>],
      qemu_loglevel = CPU_LOG_INSTR, debug_regions = None,
      emit_log = [], filter_calls = [],
      gpr_arrays = [(5, [\<lparr>reg_flags = 0, reg_name = ''x0'', gpr = 1\<rparr>])],
      next_gpr = 6, free_log = [],
      fmts = [''a=%d '', ''b=%c '', ''c=0x%lx''],
      printf_args = [7, 0, 0, 0, 0, 0, 0, 0, 0x51, 0, 0, 0, 0, 0, 0, 0, 0xABCD, 0, 0, 0, 0, 0, 0, 0],
      valid_entries = 0\<rparr>"

text \<open>
  The same CPU in user mode, the CPU with logging off (its current slot is
  the blank slot 1), and two arguments of a loglevel switch: to \<open>USER\<close>
  at pc \<open>0x2000\<close> from the CPU itself, and to \<open>ALL\<close> and to
  \<open>NONE\<close> from the monitor.
\<close>

definition cpu_user_example :: cpu_state where
  "cpu_user_example = cpu_example\<lparr>in_user_mode := True\<rparr>"

definition cpu_idle_example :: cpu_state where
  "cpu_idle_example =
     cpu_example\<lparr>loglevel := QEMU_LOG_INSTR_LOGLEVEL_NONE, loglevel_active := False,
       starting := False, ring_head := 1, ring_tail := 1\<rparr>"

definition user_level_arg :: qemu_log_next_level_arg_t where
  "user_level_arg =
     \<lparr>next_level = QEMU_LOG_INSTR_LOGLEVEL_USER, arg_pc = Some 0x2000, global = False\<rparr>"

definition all_level_arg :: qemu_log_next_level_arg_t where
  "all_level_arg =
     \<lparr>next_level = QEMU_LOG_INSTR_LOGLEVEL_ALL, arg_pc = None, global = True\<rparr>"

definition none_level_arg :: qemu_log_next_level_arg_t where
  "none_level_arg =
     \<lparr>next_level = QEMU_LOG_INSTR_LOGLEVEL_NONE, arg_pc = None, global = True\<rparr>"

section \<open>Properties\<close>

lemma free_regdumps_eq:
  "free_regdumps evts s =
     s\<lparr>gpr_arrays := filter (\<lambda>a. fst a \<notin> set (regdump_ptrs evts)) (gpr_arrays s),
       free_log := free_log s @ regdump_ptrs evts\<rparr>"
  by (induction evts s rule: free_regdumps.induct)
     (simp_all add: g_array_free_def conj_commute)

lemma reset_log_buffer_eq:
  "reset_log_buffer i s =
     s\<lparr>gpr_arrays :=
         filter (\<lambda>a. fst a \<notin> set (regdump_ptrs (events (instr_info s ! i)))) (gpr_arrays s),
       free_log := free_log s @ regdump_ptrs (events (instr_info s ! i)),
       instr_info := (instr_info s)
         [i := (memset_startzero (instr_info s ! i))
                 \<lparr>regs := [], mem := [], events := [], txt_buffer := []\<rparr>],
       force_drop := False, starting := False\<rparr>"
  by (simp add: reset_log_buffer_def Let_def free_regdumps_eq set_entry_def memset_startzero_def)

lemma reset_log_buffer_entry:
  assumes "i < length (instr_info s)"
  shows "instr_info (reset_log_buffer i s) ! i =
           (memset_startzero (instr_info s ! i))
             \<lparr>regs := [], mem := [], events := [], txt_buffer := []\<rparr>"
  using assms by (simp add: reset_log_buffer_eq)

lemma do_instr_commit_length [simp]:
  "length (instr_info (do_instr_commit s)) = length (instr_info s)"
  by (simp add: do_instr_commit_def Let_def inc_entries_emitted_def split: prod.split)

lemma do_instr_commit_instr_info [simp]:
  "instr_info (do_instr_commit s) = instr_info s"
  by (simp add: do_instr_commit_def Let_def inc_entries_emitted_def split: prod.split)

lemma do_instr_commit_ring_ok:
  assumes "ring_ok s"
  shows "ring_ok (do_instr_commit s)"
proof -
  from assms have pos: "0 < length (instr_info s)"
    by (auto simp: ring_ok_def)
  then show ?thesis
    using assms
    by (simp add: do_instr_commit_def Let_def inc_entries_emitted_def ring_ok_def
             split: prod.split)
qed

lemma reset_log_buffer_ring_ok:
  "ring_ok (reset_log_buffer i s) = ring_ok s"
  by (simp add: reset_log_buffer_eq ring_ok_def)

lemma qemu_log_instr_commit_ring_ok:
  "ring_ok s \<Longrightarrow> ring_ok (qemu_log_instr_commit s)"
  by (simp add: qemu_log_instr_commit_def Let_def reset_log_buffer_ring_ok do_instr_commit_ring_ok)

lemma reset_log_buffer_frame [simp]:
  "emit_log (reset_log_buffer i s) = emit_log s"
  "stats (reset_log_buffer i s) = stats s"
  "filter_calls (reset_log_buffer i s) = filter_calls s"
  "ring_head (reset_log_buffer i s) = ring_head s"
  "ring_tail (reset_log_buffer i s) = ring_tail s"
  "length (instr_info (reset_log_buffer i s)) = length (instr_info s)"
  "cpulog_flags (reset_log_buffer i s) = cpulog_flags s"
  "force_drop (reset_log_buffer i s) = False"
  "starting (reset_log_buffer i s) = False"
  by (simp_all add: reset_log_buffer_eq)

lemma run_filters_all:
  "\<forall>fn \<in> set fns. call_filter dr fn entry \<Longrightarrow> run_filters dr fns entry = (True, fns)"
  by (induction fns) simp_all

lemma run_filters_reject:
  "\<lbrakk>\<forall>g \<in> set pre. call_filter dr g entry; \<not> call_filter dr fn entry\<rbrakk>
     \<Longrightarrow> run_filters dr (pre @ fn # post) entry = (False, pre @ [fn])"
  by (induction pre) simp_all

lemma run_filters_ok_iff:
  "fst (run_filters dr fns entry) = (\<forall>fn \<in> set fns. call_filter dr fn entry)"
  by (induction fns) (auto split: prod.split)

lemma do_instr_commit_not_ok:
  assumes "force_drop s \<or> \<not> fst (run_filters (debug_regions s) (filters s) (get_cpu_log_entry s))"
  shows "emit_log (do_instr_commit s) = emit_log s"
    and "stats (do_instr_commit s) = stats s"
    and "ring_head (do_instr_commit s) = ring_head s"
    and "ring_tail (do_instr_commit s) = ring_tail s"
  using assms by (auto simp: do_instr_commit_def Let_def split: prod.split)

lemmas commit_eval =
  qemu_log_instr_commit_def do_instr_commit_def reset_log_buffer_eq get_cpu_log_entry_def
  call_filter_def entry_event_filter_def entry_mem_regions_filter_def range_contains_def
  inc_entries_emitted_def memset_startzero_def qemu_log_instr_drop_def
  QEMU_LOG_INSTR_FLAG_BUFFERED_def LI_FLAG_HAS_INSTR_DATA_def Let_def

lemmas example_defs = cpu_example_def entry_busy_def entry_zero_def

subsection \<open>Commit and reset\<close>

text \<open>
  C5.  After \<open>qemu_log_instr_commit\<close> the slot that is then current is
  canonically empty: its register, memory and event sequences have length 0,
  its text buffer is empty and its flags are 0.  The reset passes to
  \<open>g_array_free\<close> the register dump of every \<open>REGDUMP\<close> event the slot
  held, in order, so none of them is live afterwards.
\<close>

theorem commit_entry_canonically_empty:
  assumes "ring_ok s"
  shows "length (regs (get_cpu_log_entry (qemu_log_instr_commit s))) = 0
       \<and> length (mem (get_cpu_log_entry (qemu_log_instr_commit s))) = 0
       \<and> length (events (get_cpu_log_entry (qemu_log_instr_commit s))) = 0
       \<and> txt_buffer (get_cpu_log_entry (qemu_log_instr_commit s)) = []
       \<and> flags (get_cpu_log_entry (qemu_log_instr_commit s)) = 0
       \<and> free_log (qemu_log_instr_commit s) =
           free_log s @ regdump_ptrs (events (get_cpu_log_entry (do_instr_commit s)))
       \<and> (\<forall>p \<in> set (regdump_ptrs (events (get_cpu_log_entry (do_instr_commit s)))).
             p \<notin> fst ` set (gpr_arrays (qemu_log_instr_commit s)))"
proof -
  let ?s1 = "do_instr_commit s"
  have ok: "ring_head ?s1 < length (instr_info ?s1)"
    using do_instr_commit_ring_ok [OF assms] by (simp add: ring_ok_def)
  have head: "ring_head (qemu_log_instr_commit s) = ring_head ?s1"
    by (simp add: qemu_log_instr_commit_def Let_def)
  have entry: "get_cpu_log_entry (qemu_log_instr_commit s) =
      (memset_startzero (instr_info ?s1 ! ring_head ?s1))
        \<lparr>regs := [], mem := [], events := [], txt_buffer := []\<rparr>"
    unfolding get_cpu_log_entry_def head
    using reset_log_buffer_entry [OF ok]
    by (simp add: qemu_log_instr_commit_def Let_def)
  have fl: "free_log ?s1 = free_log s"
    by (simp add: do_instr_commit_def Let_def inc_entries_emitted_def split: prod.split)
  have freed: "free_log (qemu_log_instr_commit s) =
      free_log s @ regdump_ptrs (events (get_cpu_log_entry ?s1))"
    by (simp add: qemu_log_instr_commit_def Let_def reset_log_buffer_eq get_cpu_log_entry_def fl)
  have gone: "\<forall>p \<in> set (regdump_ptrs (events (get_cpu_log_entry ?s1))).
      p \<notin> fst ` set (gpr_arrays (qemu_log_instr_commit s))"
    by (auto simp: qemu_log_instr_commit_def Let_def reset_log_buffer_eq get_cpu_log_entry_def)
  show ?thesis
    using freed gone by (simp add: entry memset_startzero_def)
qed

theorem commit_entry_canonically_empty_witness:
  "ring_ok cpu_example
   \<and> regs (get_cpu_log_entry (qemu_log_instr_commit cpu_example)) = []
   \<and> mem (get_cpu_log_entry (qemu_log_instr_commit cpu_example)) = []
   \<and> events (get_cpu_log_entry (qemu_log_instr_commit cpu_example)) = []
   \<and> txt_buffer (get_cpu_log_entry (qemu_log_instr_commit cpu_example)) = []
   \<and> flags (get_cpu_log_entry (qemu_log_instr_commit cpu_example)) = 0
   \<and> free_log (qemu_log_instr_commit cpu_example) = [5]
   \<and> 5 \<notin> fst ` set (gpr_arrays (qemu_log_instr_commit cpu_example))"
proof -
  have h: "ring_ok cpu_example"
    by (simp add: ring_ok_def cpu_example_def)
  have e: "regdump_ptrs (events (get_cpu_log_entry (do_instr_commit cpu_example))) = [5]"
    by (simp add: example_defs commit_eval)
  have f: "free_log cpu_example = []"
    by (simp add: cpu_example_def)
  show ?thesis
    using h commit_entry_canonically_empty [OF h] by (simp add: e f)
qed

text \<open>
  C6.  In buffered mode a commit that is neither dropped nor rejected by a
  filter moves \<open>ring_head\<close> to the next slot modulo the ring size and hands
  nothing to the backend; when the new head meets \<open>ring_tail\<close>, the tail
  moves on by one as well.  Both indices stay inside the ring, so the number
  of slots from tail to head stays below the ring size.
\<close>

theorem buffered_commit_advances_ring:
  assumes "ring_ok s"
    and "cpulog_flags s AND QEMU_LOG_INSTR_FLAG_BUFFERED \<noteq> 0"
    and "\<not> force_drop s"
    and "\<forall>fn \<in> set (filters s). call_filter (debug_regions s) fn (get_cpu_log_entry s)"
  shows "ring_head (qemu_log_instr_commit s) = (ring_head s + 1) mod length (instr_info s)
       \<and> ring_tail (qemu_log_instr_commit s) =
           (if ring_tail s = (ring_head s + 1) mod length (instr_info s)
            then (ring_tail s + 1) mod length (instr_info s) else ring_tail s)
       \<and> emit_log (qemu_log_instr_commit s) = emit_log s
       \<and> entries_emitted (stats (qemu_log_instr_commit s)) = entries_emitted (stats s)
       \<and> length (instr_info (qemu_log_instr_commit s)) = length (instr_info s)
       \<and> ring_ok (qemu_log_instr_commit s)
       \<and> (ring_head (qemu_log_instr_commit s) + length (instr_info s)
            - ring_tail (qemu_log_instr_commit s)) mod length (instr_info s)
           < length (instr_info s)"
proof -
  have rf: "run_filters (debug_regions s) (filters s) (get_cpu_log_entry s) = (True, filters s)"
    using assms(4) by (rule run_filters_all)
  have pos: "0 < length (instr_info s)"
    using assms(1) by (auto simp: ring_ok_def)
  have dc: "do_instr_commit s =
      (let s2 = s\<lparr>filter_calls := filter_calls s @ filters s,
                  ring_head := (ring_head s + 1) mod length (instr_info s)\<rparr>
       in if ring_tail s2 = ring_head s2
          then s2\<lparr>ring_tail := (ring_tail s2 + 1) mod length (instr_info s2)\<rparr> else s2)"
    using assms(2,3) by (simp add: do_instr_commit_def Let_def rf)
  have ok: "ring_ok (qemu_log_instr_commit s)"
    using assms(1) by (rule qemu_log_instr_commit_ring_ok)
  show ?thesis
    using pos ok by (simp add: qemu_log_instr_commit_def dc Let_def)
qed

text \<open>
  The witness is a ring of four slots in buffered mode whose head is in the
  last slot and whose tail is in the first: the commit wraps the head to
  slot 0, meets the tail there, and pushes the tail to slot 1.
\<close>

theorem buffered_commit_advances_ring_witness:
  "ring_ok (cpu_example\<lparr>cpulog_flags := 1, instr_info := [entry_zero, entry_zero, entry_zero, entry_busy],
                       ring_head := 3\<rparr>)
   \<and> ring_head (qemu_log_instr_commit
        (cpu_example\<lparr>cpulog_flags := 1, instr_info := [entry_zero, entry_zero, entry_zero, entry_busy],
                     ring_head := 3\<rparr>)) = 0
   \<and> ring_tail (qemu_log_instr_commit
        (cpu_example\<lparr>cpulog_flags := 1, instr_info := [entry_zero, entry_zero, entry_zero, entry_busy],
                     ring_head := 3\<rparr>)) = 1
   \<and> emit_log (qemu_log_instr_commit
        (cpu_example\<lparr>cpulog_flags := 1, instr_info := [entry_zero, entry_zero, entry_zero, entry_busy],
                     ring_head := 3\<rparr>)) = []"
proof -
  let ?s = "cpu_example\<lparr>cpulog_flags := 1,
              instr_info := [entry_zero, entry_zero, entry_zero, entry_busy], ring_head := 3\<rparr>"
  have h1: "ring_ok ?s"
    by (simp add: ring_ok_def cpu_example_def)
  have h2: "cpulog_flags ?s AND QEMU_LOG_INSTR_FLAG_BUFFERED \<noteq> 0"
    by (simp add: QEMU_LOG_INSTR_FLAG_BUFFERED_def)
  have h3: "\<not> force_drop ?s"
    by (simp add: cpu_example_def)
  have h4: "\<forall>fn \<in> set (filters ?s). call_filter (debug_regions ?s) fn (get_cpu_log_entry ?s)"
    by (simp add: example_defs commit_eval)
  show ?thesis
    using h1 buffered_commit_advances_ring [OF h1 h2 h3 h4]
    by (simp add: cpu_example_def)
qed

text \<open>
  C7.  A commit performed while \<open>force_drop\<close> is set, whatever the filter
  list (the empty one included) and whatever the mode, discards the entry:
  \<open>do_instr_commit\<close> changes nothing, so nothing is handed to the
  backend, the counters stay as they were, no filter is called and the ring
  indices do not move; the commit is the reset of the current slot and
  nothing else.  The same holds of the commit that follows
  \<open>qemu_log_instr_drop\<close>.  When no drop is pending and a filter of the
  per-CPU list rejects the current entry, nothing is handed to the backend
  either, the counters and the ring indices stay as they were, and the
  filters called are those before the first rejecting one and that one:
  none after it.
\<close>

theorem commit_drop_and_filter_reject:
  "(force_drop s \<longrightarrow>
      do_instr_commit s = s
    \<and> qemu_log_instr_commit s = reset_log_buffer (ring_head s) s
    \<and> emit_log (qemu_log_instr_commit s) = emit_log s
    \<and> stats (qemu_log_instr_commit s) = stats s
    \<and> filter_calls (qemu_log_instr_commit s) = filter_calls s
    \<and> ring_head (qemu_log_instr_commit s) = ring_head s
    \<and> ring_tail (qemu_log_instr_commit s) = ring_tail s)
 \<and> force_drop (qemu_log_instr_drop s)
 \<and> emit_log (qemu_log_instr_commit (qemu_log_instr_drop s)) = emit_log s
 \<and> stats (qemu_log_instr_commit (qemu_log_instr_drop s)) = stats s
 \<and> filter_calls (qemu_log_instr_commit (qemu_log_instr_drop s)) = filter_calls s
 \<and> ring_head (qemu_log_instr_commit (qemu_log_instr_drop s)) = ring_head s
 \<and> ring_tail (qemu_log_instr_commit (qemu_log_instr_drop s)) = ring_tail s
 \<and> (\<not> force_drop s \<and> filters s = pre @ fn # post
      \<and> (\<forall>g \<in> set pre. call_filter (debug_regions s) g (get_cpu_log_entry s))
      \<and> \<not> call_filter (debug_regions s) fn (get_cpu_log_entry s) \<longrightarrow>
      do_instr_commit s = s\<lparr>filter_calls := filter_calls s @ pre @ [fn]\<rparr>
    \<and> emit_log (qemu_log_instr_commit s) = emit_log s
    \<and> stats (qemu_log_instr_commit s) = stats s
    \<and> ring_head (qemu_log_instr_commit s) = ring_head s
    \<and> ring_tail (qemu_log_instr_commit s) = ring_tail s
    \<and> filter_calls (qemu_log_instr_commit s) = filter_calls s @ pre @ [fn])"
proof -
  have dropped: "do_instr_commit t = t" if "force_drop t" for t
    using that by (simp add: do_instr_commit_def)
  have d: "do_instr_commit (qemu_log_instr_drop s) = qemu_log_instr_drop s"
    by (rule dropped) (simp add: qemu_log_instr_drop_def)
  have part1: "force_drop s \<longrightarrow>
      do_instr_commit s = s
    \<and> qemu_log_instr_commit s = reset_log_buffer (ring_head s) s
    \<and> emit_log (qemu_log_instr_commit s) = emit_log s
    \<and> stats (qemu_log_instr_commit s) = stats s
    \<and> filter_calls (qemu_log_instr_commit s) = filter_calls s
    \<and> ring_head (qemu_log_instr_commit s) = ring_head s
    \<and> ring_tail (qemu_log_instr_commit s) = ring_tail s"
    by (simp add: qemu_log_instr_commit_def Let_def dropped)
  have part2: "force_drop (qemu_log_instr_drop s)
    \<and> emit_log (qemu_log_instr_commit (qemu_log_instr_drop s)) = emit_log s
    \<and> stats (qemu_log_instr_commit (qemu_log_instr_drop s)) = stats s
    \<and> filter_calls (qemu_log_instr_commit (qemu_log_instr_drop s)) = filter_calls s
    \<and> ring_head (qemu_log_instr_commit (qemu_log_instr_drop s)) = ring_head s
    \<and> ring_tail (qemu_log_instr_commit (qemu_log_instr_drop s)) = ring_tail s"
    by (simp add: qemu_log_instr_commit_def Let_def d) (simp add: qemu_log_instr_drop_def)
  have part3: "\<not> force_drop s \<and> filters s = pre @ fn # post
      \<and> (\<forall>g \<in> set pre. call_filter (debug_regions s) g (get_cpu_log_entry s))
      \<and> \<not> call_filter (debug_regions s) fn (get_cpu_log_entry s) \<longrightarrow>
      do_instr_commit s = s\<lparr>filter_calls := filter_calls s @ pre @ [fn]\<rparr>
    \<and> emit_log (qemu_log_instr_commit s) = emit_log s
    \<and> stats (qemu_log_instr_commit s) = stats s
    \<and> ring_head (qemu_log_instr_commit s) = ring_head s
    \<and> ring_tail (qemu_log_instr_commit s) = ring_tail s
    \<and> filter_calls (qemu_log_instr_commit s) = filter_calls s @ pre @ [fn]"
  proof (intro impI, elim conjE)
    assume nd: "\<not> force_drop s" and fs: "filters s = pre @ fn # post"
      and acc: "\<forall>g \<in> set pre. call_filter (debug_regions s) g (get_cpu_log_entry s)"
      and rej: "\<not> call_filter (debug_regions s) fn (get_cpu_log_entry s)"
    have rf: "run_filters (debug_regions s) (filters s) (get_cpu_log_entry s) = (False, pre @ [fn])"
      unfolding fs using acc rej by (rule run_filters_reject)
    have c: "do_instr_commit s = s\<lparr>filter_calls := filter_calls s @ pre @ [fn]\<rparr>"
      using nd by (simp add: do_instr_commit_def Let_def rf)
    show "do_instr_commit s = s\<lparr>filter_calls := filter_calls s @ pre @ [fn]\<rparr>
        \<and> emit_log (qemu_log_instr_commit s) = emit_log s
        \<and> stats (qemu_log_instr_commit s) = stats s
        \<and> ring_head (qemu_log_instr_commit s) = ring_head s
        \<and> ring_tail (qemu_log_instr_commit s) = ring_tail s
        \<and> filter_calls (qemu_log_instr_commit s) = filter_calls s @ pre @ [fn]"
      by (simp add: qemu_log_instr_commit_def Let_def c)
  qed
  from part1 part2 part3 show ?thesis
    by (intro conjI) (elim conjE, assumption)+
qed

text \<open>
  The witness uses the theorem at two CPUs.  The first is in streaming mode
  with an empty filter list and a populated current entry, which a commit
  without a drop would emit; a drop is pending, and the commit emits
  nothing.  On the second the current slot is blank and the filter list is
  the event filter followed by the memory-region filter: the event filter
  rejects the entry and the memory-region filter is never called.
\<close>

theorem commit_drop_and_filter_reject_witness:
  "force_drop (cpu_example\<lparr>force_drop := True, filters := []\<rparr>)
   \<and> emit_log (qemu_log_instr_commit (cpu_example\<lparr>force_drop := True, filters := []\<rparr>)) = []
   \<and> entries_emitted (stats (qemu_log_instr_commit
        (cpu_example\<lparr>force_drop := True, filters := []\<rparr>))) = 0
   \<and> emit_log (qemu_log_instr_commit (cpu_example\<lparr>filters := []\<rparr>)) = [entry_busy]
   \<and> \<not> force_drop (cpu_example\<lparr>ring_head := 1,
          filters := [Entry_event_filter, Entry_mem_regions_filter]\<rparr>)
   \<and> filters (cpu_example\<lparr>ring_head := 1, filters := [Entry_event_filter, Entry_mem_regions_filter]\<rparr>)
       = [] @ Entry_event_filter # [Entry_mem_regions_filter]
   \<and> \<not> call_filter None Entry_event_filter entry_zero
   \<and> emit_log (qemu_log_instr_commit
       (cpu_example\<lparr>ring_head := 1, filters := [Entry_event_filter, Entry_mem_regions_filter]\<rparr>)) = []
   \<and> filter_calls (qemu_log_instr_commit
       (cpu_example\<lparr>ring_head := 1, filters := [Entry_event_filter, Entry_mem_regions_filter]\<rparr>))
       = [Entry_event_filter]"
proof -
  let ?d = "cpu_example\<lparr>force_drop := True, filters := []\<rparr>"
  let ?s = "cpu_example\<lparr>ring_head := 1,
              filters := [Entry_event_filter, Entry_mem_regions_filter]\<rparr>"
  have d1: "force_drop ?d"
    by simp
  have d2: "emit_log ?d = []" "stats ?d = \<lparr>entries_emitted = 0, trace_start = 1, trace_stop = 0\<rparr>"
    by (simp_all add: cpu_example_def)
  have plain: "emit_log (qemu_log_instr_commit (cpu_example\<lparr>filters := []\<rparr>)) = [entry_busy]"
    by (simp add: qemu_log_instr_commit_def do_instr_commit_def Let_def get_cpu_log_entry_def
          inc_entries_emitted_def QEMU_LOG_INSTR_FLAG_BUFFERED_def cpu_example_def)
  have h0: "\<not> force_drop ?s"
    by (simp add: cpu_example_def)
  have h1: "filters ?s = [] @ Entry_event_filter # [Entry_mem_regions_filter]"
    by simp
  have h2: "\<forall>g \<in> set []. call_filter (debug_regions ?s) g (get_cpu_log_entry ?s)"
    by simp
  have c0: "\<not> call_filter None Entry_event_filter entry_zero"
    by (simp add: call_filter_def entry_event_filter_def entry_zero_def)
  have h3: "\<not> call_filter (debug_regions ?s) Entry_event_filter (get_cpu_log_entry ?s)"
    by (simp add: get_cpu_log_entry_def cpu_example_def call_filter_def
          entry_event_filter_def entry_zero_def)
  have fd: "emit_log ?s = []" "filter_calls ?s = []"
    by (simp_all add: cpu_example_def)
  from commit_drop_and_filter_reject [of ?d] d1
  have r1: "emit_log (qemu_log_instr_commit ?d) = emit_log ?d"
    "stats (qemu_log_instr_commit ?d) = stats ?d"
    by blast+
  from commit_drop_and_filter_reject [of ?s "[]" Entry_event_filter "[Entry_mem_regions_filter]"]
    h0 h1 h2 h3
  have r2: "emit_log (qemu_log_instr_commit ?s) = emit_log ?s"
    "filter_calls (qemu_log_instr_commit ?s) = filter_calls ?s @ [] @ [Entry_event_filter]"
    by blast+
  show ?thesis
    using d1 h0 h1 c0 plain r1 r2 d2 fd by simp
qed

text \<open>
  C9.  \<open>reset_log_buffer\<close>, on whatever slot and in whatever state it is
  called (after a commit, in the stop half of a loglevel switch, for each
  slot of a resized ring), leaves \<open>force_drop\<close> and \<open>starting\<close>
  false; so do a commit and the stop half, which end with a reset.  A drop
  request is used up by the next commit: that commit emits nothing and
  leaves no drop pending.
\<close>

theorem reset_clears_force_drop_and_starting:
  "force_drop (reset_log_buffer i s) = False
 \<and> starting (reset_log_buffer i s) = False
 \<and> force_drop (qemu_log_instr_commit s) = False
 \<and> starting (qemu_log_instr_commit s) = False
 \<and> force_drop (loglevel_switch_stop v s) = False
 \<and> starting (loglevel_switch_stop v s) = False
 \<and> force_drop (qemu_log_instr_drop s) = True
 \<and> force_drop (qemu_log_instr_commit (qemu_log_instr_drop s)) = False
 \<and> emit_log (qemu_log_instr_commit (qemu_log_instr_drop s)) = emit_log s"
  by (simp add: qemu_log_instr_commit_def Let_def do_instr_commit_def qemu_log_instr_drop_def
        loglevel_switch_stop_def)

lemma cpu_example_fields:
  "loglevel cpu_example = QEMU_LOG_INSTR_LOGLEVEL_ALL"
  "loglevel_active cpu_example = True"
  "starting cpu_example = True"
  "force_drop cpu_example = False"
  "cpulog_flags cpu_example = 0"
  "instr_info cpu_example = [entry_busy, entry_zero, entry_zero, entry_zero]"
  "ring_head cpu_example = 0"
  "ring_tail cpu_example = 0"
  "filters cpu_example = [Entry_event_filter]"
  "stats cpu_example = \<lparr>entries_emitted = 0, trace_start = 1, trace_stop = 0\<rparr>"
  "in_user_mode cpu_example = False"
  "recent_pc cpu_example = 0x1000"
  "regdump_regs cpu_example = Some [\<lparr>reg_flags = 0, reg_name = ''x0'', gpr = 1\<rparr>]"
  "qemu_loglevel cpu_example = CPU_LOG_INSTR"
  "debug_regions cpu_example = None"
  "emit_log cpu_example = []"
  "filter_calls cpu_example = []"
  "next_gpr cpu_example = 6"
  "free_log cpu_example = []"
  "valid_entries cpu_example = 0"
  by (simp_all add: cpu_example_def)

lemma CPU_LOG_INSTR_nonzero: "CPU_LOG_INSTR \<noteq> 0"
  by (simp add: CPU_LOG_INSTR_def)

subsection \<open>Filters\<close>

lemma filter_fn_UNIV: "(UNIV :: cpu_log_instr_filter_fn_t set) = {Entry_mem_regions_filter, Entry_event_filter}"
  by (auto intro: cpu_log_instr_filter_fn_t.exhaust)

lemma distinct_filters_length:
  assumes "distinct (fns :: cpu_log_instr_filter_fn_t list)"
  shows "length fns \<le> 2"
proof -
  have "length fns = card (set fns)"
    using assms by (simp add: distinct_card)
  also have "\<dots> \<le> card (UNIV :: cpu_log_instr_filter_fn_t set)"
  proof (rule card_mono)
    show "finite (UNIV :: cpu_log_instr_filter_fn_t set)"
      by (simp add: filter_fn_UNIV)
  qed simp
  also have "\<dots> = 2"
    by (simp add: filter_fn_UNIV)
  finally show ?thesis .
qed

lemma remove_filter_loop_short:
  assumes "length fns \<le> 2"
  shows "remove_filter_loop fn 0 fns = remove1 fn fns"
proof -
  consider "fns = []" | a where "fns = [a]" | a b where "fns = [a, b]"
    using assms by (cases fns; cases "tl fns"; cases "tl (tl fns)") auto
  then show ?thesis
  proof cases
    case 1
    then show ?thesis by (simp add: remove_filter_loop.simps)
  next
    case 2
    then show ?thesis
      by (simp add: remove_filter_loop.simps [of _ 0] remove_filter_loop.simps [of _ "Suc 0"]
            g_array_remove_index_fast_def)
  next
    case 3
    then show ?thesis
      by (simp add: remove_filter_loop.simps [of _ 0] remove_filter_loop.simps [of _ "Suc 0"]
            remove_filter_loop.simps [of _ "Suc (Suc 0)"] g_array_remove_index_fast_def)
  qed
qed

lemma filter_present_iff: "filter_present fn fns = (fn \<in> set fns)"
  by (induction fns) auto

lemma add_filter_fn_distinct: "distinct fns \<Longrightarrow> distinct (add_filter_fn flt fns)"
  by (simp add: add_filter_fn_def Let_def filter_present_iff)

lemma remove_filter_fn_distinct: "distinct fns \<Longrightarrow> distinct (remove_filter_fn flt fns)"
  by (simp add: remove_filter_fn_def remove_filter_loop_short distinct_filters_length)

lemma filters_reachable_distinct: "filters_reachable fns \<Longrightarrow> distinct fns"
  by (induction rule: filters_reachable.induct)
     (simp_all add: add_filter_fn_distinct remove_filter_fn_distinct)

text \<open>
  C2.  The filter list of a CPU is one that \<open>qemu_log_instr_init\<close>,
  \<open>qemu_log_instr_add_filter\<close> and \<open>qemu_log_instr_remove_filter\<close>
  can produce.  On such a list that holds a valid filter, removing the
  filter deletes its one occurrence and keeps the other elements in their
  order.  The list is duplicate-free and the table has two filters, so the
  list has at most two elements: the swap with the last element that
  \<open>g_array_remove_index_fast\<close> performs cannot reorder what remains.
\<close>

theorem remove_filter_preserves_order:
  assumes "filters_reachable (filters s)"
    and "flt < LOG_INSTR_FILTER_MAX"
    and "trace_filters ! flt \<in> set (filters s)"
  shows "filters (qemu_log_instr_remove_filter flt s) = remove1 (trace_filters ! flt) (filters s)
       \<and> length (filters (qemu_log_instr_remove_filter flt s)) + 1 = length (filters s)
       \<and> trace_filters ! flt \<notin> set (filters (qemu_log_instr_remove_filter flt s))
       \<and> filters (qemu_log_instr_remove_filter flt s)
           = filter (\<lambda>fn. fn \<noteq> trace_filters ! flt) (filters s)"
proof -
  have d: "distinct (filters s)"
    using assms(1) by (rule filters_reachable_distinct)
  then have eq: "filters (qemu_log_instr_remove_filter flt s) = remove1 (trace_filters ! flt) (filters s)"
    using assms(2)
    by (simp add: qemu_log_instr_remove_filter_def remove_filter_fn_def
          remove_filter_loop_short distinct_filters_length)
  have len: "length (remove1 (trace_filters ! flt) (filters s)) + 1 = length (filters s)"
    using assms(3) by (simp add: length_remove1) (cases "filters s"; simp)
  show ?thesis
    unfolding eq using d len by (simp add: distinct_remove1_removeAll removeAll_filter_not_eq) metis
qed

theorem remove_filter_preserves_order_witness:
  "filters_reachable (filters (cpu_example\<lparr>filters := [Entry_mem_regions_filter, Entry_event_filter]\<rparr>))
   \<and> (0::nat) < LOG_INSTR_FILTER_MAX
   \<and> trace_filters ! 0 \<in> set (filters (cpu_example\<lparr>filters := [Entry_mem_regions_filter, Entry_event_filter]\<rparr>))
   \<and> filters (qemu_log_instr_remove_filter 0
        (cpu_example\<lparr>filters := [Entry_mem_regions_filter, Entry_event_filter]\<rparr>)) = [Entry_event_filter]"
proof -
  let ?s = "cpu_example\<lparr>filters := [Entry_mem_regions_filter, Entry_event_filter]\<rparr>"
  have "filters_reachable (add_filter_fn 1 (add_filter_fn 0 []))"
    by (intro filters_reachable.add filters_reachable.init)
  then have h1: "filters_reachable (filters ?s)"
    by (simp add: add_filter_fn_def trace_filters_def LOG_INSTR_FILTER_MAX_def)
  have h2: "(0::nat) < LOG_INSTR_FILTER_MAX"
    by (simp add: LOG_INSTR_FILTER_MAX_def)
  have h3: "trace_filters ! 0 \<in> set (filters ?s)"
    by (simp add: trace_filters_def)
  show ?thesis
    using h1 h2 h3 remove_filter_preserves_order [OF h1 h2 h3]
    by (simp add: trace_filters_def)
qed

text \<open>
  On a longer array the same call does reorder: the last element moves into
  the freed position.  No filter list of a CPU is that long.
\<close>

lemma swap_remove_reorders:
  "g_array_remove_index_fast 0 [a, b, c] = [c, b]"
  by (simp add: g_array_remove_index_fast_def)

text \<open>
  C3, as amended.  When \<open>debug_regions\<close> is not set (the \<open>NULL\<close>
  pointer: no \<open>-dfilter\<close> was given), every entry passes the
  \<open>MEM_REGIONS\<close> filter.  A range array that is allocated but holds no
  range rejects every entry.
\<close>

theorem mem_regions_filter_unset:
  "entry_mem_regions_filter None entry
 \<and> call_filter None Entry_mem_regions_filter entry
 \<and> \<not> entry_mem_regions_filter (Some []) entry"
  by (simp add: entry_mem_regions_filter_def call_filter_def)

text \<open>
  C3 as stated fails for the empty range array: the loop over the ranges
  does not run and the filter answers \<open>false\<close> for the blank entry.
\<close>

theorem mem_regions_filter_empty_counterexample:
  "\<not> entry_mem_regions_filter (Some []) entry_zero"
  by (simp add: entry_mem_regions_filter_def)

subsection \<open>Loglevel switch\<close>

text \<open>
  C10.  Appending a START state event with \<open>emit_start_event\<close> clears
  \<open>HAS_INSTR_DATA\<close> and leaves the other flag bits, sets \<open>pc\<close> to the
  pc of the event and \<open>paddr\<close> to its translation, and puts the START
  event after the events the entry already holds, which stay as they were.
  The register and memory sequences, the text buffer and the remaining
  fields are unchanged.  Hence the entry that carries the START event has
  \<open>HAS_INSTR_DATA\<close> clear: it does not claim the instruction data
  recorded before the start.
\<close>

theorem emit_start_event_frame:
  "flags (emit_start_event env entry v) = flags entry AND NOT LI_FLAG_HAS_INSTR_DATA
 \<and> flags (emit_start_event env entry v) AND LI_FLAG_HAS_INSTR_DATA = 0
 \<and> pc (emit_start_event env entry v) = v
 \<and> paddr (emit_start_event env entry v) = get_paddr env v
 \<and> events (emit_start_event env entry v) = events entry @ [LOG_EVENT_STATE LOG_EVENT_STATE_START v]
 \<and> regs (emit_start_event env entry v) = regs entry
 \<and> mem (emit_start_event env entry v) = mem entry
 \<and> txt_buffer (emit_start_event env entry v) = txt_buffer entry
 \<and> asid (emit_start_event env entry v) = asid entry
 \<and> next_cpu_mode (emit_start_event env entry v) = next_cpu_mode entry
 \<and> intr_code (emit_start_event env entry v) = intr_code entry
 \<and> intr_vector (emit_start_event env entry v) = intr_vector entry
 \<and> intr_faultaddr (emit_start_event env entry v) = intr_faultaddr entry
 \<and> insn_size (emit_start_event env entry v) = insn_size entry
 \<and> insn_bytes (emit_start_event env entry v) = insn_bytes entry"
  by (simp add: emit_start_event_def Let_def word_bw_assocs)

lemma loglevel_switch_start_props:
  assumes "ring_head s < length (instr_info s)"
  shows "starting (loglevel_switch_start v s)"
    and "trace_start (stats (loglevel_switch_start v s)) = trace_start (stats s) + 1"
    and "trace_stop (stats (loglevel_switch_start v s)) = trace_stop (stats s)"
    and "emit_log (loglevel_switch_start v s) = emit_log s"
    and "events (get_cpu_log_entry (loglevel_switch_start v s)) =
           events (get_cpu_log_entry s) @ LOG_EVENT_STATE LOG_EVENT_STATE_START v #
             (case regdump_regs s of None \<Rightarrow> [] | Some rs \<Rightarrow> [LOG_EVENT_REGDUMP (next_gpr s)])"
    and "loglevel (loglevel_switch_start v s) = loglevel s"
    and "loglevel_active (loglevel_switch_start v s) = loglevel_active s"
  using assms
  by (simp_all add: loglevel_switch_start_def Let_def inc_trace_start_def emit_regdump_event_def
        set_entry_def get_cpu_log_entry_def emit_start_event_def split: option.split)

lemma loglevel_switch_stop_props:
  assumes "ring_ok s"
  shows "ring_head (loglevel_switch_stop v s) < length (instr_info (loglevel_switch_stop v s))"
    and "events (get_cpu_log_entry (loglevel_switch_stop v s)) = []"
    and "trace_start (stats (loglevel_switch_stop v s)) = trace_start (stats s)"
    and "regdump_regs (loglevel_switch_stop v s) = regdump_regs s"
    and "next_gpr (loglevel_switch_stop v s) = next_gpr s"
    and "loglevel (loglevel_switch_stop v s) = loglevel s"
    and "loglevel_active (loglevel_switch_stop v s) = loglevel_active s"
    and "starting (loglevel_switch_stop v s) = False"
proof -
  let ?b = "inc_trace_stop (set_entry (ring_head s) (emit_stop_event (get_cpu_log_entry s) v) s)"
  let ?c = "do_instr_commit ?b"
  have b: "ring_ok ?b"
    using assms by (simp add: ring_ok_def inc_trace_stop_def set_entry_def)
  then have c: "ring_ok ?c"
    by (rule do_instr_commit_ring_ok)
  have sh: "loglevel_switch_stop v s = reset_log_buffer (ring_head ?c) ?c"
    by (simp add: loglevel_switch_stop_def Let_def)
  from c show "ring_head (loglevel_switch_stop v s) < length (instr_info (loglevel_switch_stop v s))"
    unfolding sh by (simp add: ring_ok_def)
  from c show "events (get_cpu_log_entry (loglevel_switch_stop v s)) = []"
    unfolding sh get_cpu_log_entry_def
    by (simp add: reset_log_buffer_entry ring_ok_def)
  have fr: "trace_start (stats ?c) = trace_start (stats s)" "regdump_regs ?c = regdump_regs s"
    "next_gpr ?c = next_gpr s" "loglevel ?c = loglevel s" "loglevel_active ?c = loglevel_active s"
    by (simp_all add: do_instr_commit_def Let_def inc_entries_emitted_def inc_trace_stop_def
          set_entry_def split: prod.split)
  then show "trace_start (stats (loglevel_switch_stop v s)) = trace_start (stats s)"
    "regdump_regs (loglevel_switch_stop v s) = regdump_regs s"
    "next_gpr (loglevel_switch_stop v s) = next_gpr s"
    "loglevel (loglevel_switch_stop v s) = loglevel s"
    "loglevel_active (loglevel_switch_stop v s) = loglevel_active s"
    "starting (loglevel_switch_stop v s) = False"
    unfolding sh by (simp_all add: reset_log_buffer_eq)
qed


text \<open>
  What a switch that is not a no-op does, path by path.  It updates the
  level and the activity.  When the previous level was active and
  \<open>starting\<close> is set, the result is the reset of the current slot and
  nothing else (\<open>goto done\<close>): nothing is committed, the ring indices and
  the counters stay, and the start half is not run.  Otherwise, when the
  next level is active, \<open>starting\<close> is set, \<open>trace_start\<close> goes up by
  one, and a \<open>STATE{START, pc}\<close> event, followed by a \<open>REGDUMP\<close> event
  when the target's register dump succeeds, is appended to the current
  entry (which is empty when a stop was committed first).
\<close>

lemma loglevel_switch_effects:
  assumes "qemu_loglevel_mask CPU_LOG_INSTR s"
    and "ring_ok s"
    and "switch_pc arg s = Inr v"
    and "\<not> (next_level arg = loglevel s \<and> loglevel_active s = next_level_active arg s)"
  shows "\<not> isl (do_cpu_loglevel_switch arg s)
       \<and> loglevel (projr (do_cpu_loglevel_switch arg s)) = next_level arg
       \<and> loglevel_active (projr (do_cpu_loglevel_switch arg s)) = next_level_active arg s
       \<and> (if loglevel_active s \<and> starting s then
             projr (do_cpu_loglevel_switch arg s) =
               reset_log_buffer (ring_head s)
                 (s\<lparr>loglevel := next_level arg, loglevel_active := next_level_active arg s\<rparr>)
           \<and> starting (projr (do_cpu_loglevel_switch arg s)) = False
           \<and> events (get_cpu_log_entry (projr (do_cpu_loglevel_switch arg s))) = []
           \<and> stats (projr (do_cpu_loglevel_switch arg s)) = stats s
           \<and> emit_log (projr (do_cpu_loglevel_switch arg s)) = emit_log s
          else if next_level_active arg s then
             starting (projr (do_cpu_loglevel_switch arg s)) = True
           \<and> trace_start (stats (projr (do_cpu_loglevel_switch arg s))) = trace_start (stats s) + 1
           \<and> events (get_cpu_log_entry (projr (do_cpu_loglevel_switch arg s))) =
               (if loglevel_active s then [] else events (get_cpu_log_entry s))
               @ LOG_EVENT_STATE LOG_EVENT_STATE_START v
               # (case regdump_regs s of None \<Rightarrow> [] | Some rs \<Rightarrow> [LOG_EVENT_REGDUMP (next_gpr s)])
          else True)"
proof -
  define act where "act = next_level_active arg s"
  define s1 where "s1 = s\<lparr>loglevel := next_level arg, loglevel_active := act\<rparr>"
  define r where "r = projr (do_cpu_loglevel_switch arg s)"
  have run: "do_cpu_loglevel_switch arg s =
      Inr (loglevel_switch_events (loglevel s) (loglevel_active s) arg act v s1)"
    using assms(1,3) by (simp add: do_cpu_loglevel_switch_def Let_def act_def s1_def)
  have l: "\<not> isl (do_cpu_loglevel_switch arg s)"
    by (simp add: run)
  have r: "r = loglevel_switch_events (loglevel s) (loglevel_active s) arg act v s1"
    by (simp add: r_def run)
  have ok1: "ring_ok s1" "ring_head s1 < length (instr_info s1)"
    using assms(2) by (simp_all add: ring_ok_def s1_def)
  have s1: "get_cpu_log_entry s1 = get_cpu_log_entry s" "loglevel s1 = next_level arg"
    "loglevel_active s1 = act" "stats s1 = stats s" "regdump_regs s1 = regdump_regs s"
    "next_gpr s1 = next_gpr s" "starting s1 = starting s" "ring_head s1 = ring_head s"
    "emit_log s1 = emit_log s"
    by (simp_all add: get_cpu_log_entry_def s1_def)
  note st = loglevel_switch_stop_props [OF ok1(1), of v]
  note sa = loglevel_switch_start_props [OF st(1), of v]
  note sb = loglevel_switch_start_props [OF ok1(2), of v]
  have nn: "\<not> (next_level arg = loglevel s \<and> loglevel_active s = act)"
    using assms(4) by (simp add: act_def)
  have goal: "loglevel r = next_level arg \<and> loglevel_active r = act
       \<and> (if loglevel_active s \<and> starting s then
             r = reset_log_buffer (ring_head s) s1
           \<and> starting r = False
           \<and> events (get_cpu_log_entry r) = []
           \<and> stats r = stats s
           \<and> emit_log r = emit_log s
          else if act then
             starting r = True
           \<and> trace_start (stats r) = trace_start (stats s) + 1
           \<and> events (get_cpu_log_entry r) =
               (if loglevel_active s then [] else events (get_cpu_log_entry s))
               @ LOG_EVENT_STATE LOG_EVENT_STATE_START v
               # (case regdump_regs s of None \<Rightarrow> [] | Some rs \<Rightarrow> [LOG_EVENT_REGDUMP (next_gpr s)])
          else True)"
  proof (cases "loglevel_active s \<and> starting s")
    case True
    then have ev: "r = reset_log_buffer (ring_head s) s1"
      using nn by (auto simp: r loglevel_switch_events_def s1)
    have "events (get_cpu_log_entry (reset_log_buffer (ring_head s) s1)) = []"
      using ok1(2) by (simp add: get_cpu_log_entry_def reset_log_buffer_eq s1)
    then show ?thesis
      unfolding ev using True by (simp add: s1) (simp add: reset_log_buffer_eq s1)
  next
    case False
    note nd = this
    show ?thesis
    proof (cases act)
      case act: True
      show ?thesis
      proof (cases "loglevel_active s")
        case True
        with nd have ns: "\<not> starting s" by simp
        have ev: "r = loglevel_switch_start v (loglevel_switch_stop v s1)"
          using nn True ns act by (auto simp: r loglevel_switch_events_def Let_def s1)
        show ?thesis
          unfolding ev using True ns act by (simp add: sa st s1 split: option.split)
      next
        case False
        have ev: "r = loglevel_switch_start v s1"
          using nn False act by (auto simp: r loglevel_switch_events_def Let_def)
        show ?thesis
          unfolding ev using False act by (simp add: sb s1 split: option.split)
      qed
    next
      case inact: False
      have ev: "r = (if loglevel_active s then loglevel_switch_stop v s1 else s1)"
        using nn inact nd by (auto simp: r loglevel_switch_events_def Let_def s1)
      show ?thesis
        unfolding ev using inact nd by (simp add: st s1)
    qed
  qed
  from l goal show ?thesis
    unfolding r_def act_def s1_def by (rule conjI)
qed


text \<open>
  C1 at the failing input.  The CPU logs at \<open>ALL\<close> with a pending start
  (\<open>starting\<close> set, the START and REGDUMP events in the current entry),
  runs in user mode and is switched to \<open>USER\<close>.  The switch is not a
  no-op, the previous level was active and the next level is active.  The
  code resets the current entry and jumps to \<open>done\<close>: the result is
  exactly that reset, so logging is active at the new level while
  \<open>starting\<close> is clear, the current entry holds no START and no REGDUMP
  event (the dump was freed), and \<open>trace_start\<close> has not moved.  The
  claim says the switch goes on to step 3 and issues the start again.
\<close>

theorem loglevel_switch_start_lost:
  "qemu_loglevel_mask CPU_LOG_INSTR cpu_user_example
   \<and> ring_ok cpu_user_example
   \<and> loglevel_active cpu_user_example
   \<and> starting cpu_user_example
   \<and> events (get_cpu_log_entry cpu_user_example)
       = [LOG_EVENT_STATE LOG_EVENT_STATE_START 0x1000, LOG_EVENT_REGDUMP 5]
   \<and> next_level user_level_arg \<noteq> loglevel cpu_user_example
   \<and> next_level_active user_level_arg cpu_user_example
   \<and> do_cpu_loglevel_switch user_level_arg cpu_user_example =
       Inr (reset_log_buffer 0
             (cpu_user_example\<lparr>loglevel := QEMU_LOG_INSTR_LOGLEVEL_USER, loglevel_active := True\<rparr>))
   \<and> loglevel (projr (do_cpu_loglevel_switch user_level_arg cpu_user_example))
       = QEMU_LOG_INSTR_LOGLEVEL_USER
   \<and> loglevel_active (projr (do_cpu_loglevel_switch user_level_arg cpu_user_example))
   \<and> starting (projr (do_cpu_loglevel_switch user_level_arg cpu_user_example)) = False
   \<and> events (get_cpu_log_entry (projr (do_cpu_loglevel_switch user_level_arg cpu_user_example))) = []
   \<and> free_log (projr (do_cpu_loglevel_switch user_level_arg cpu_user_example)) = [5]
   \<and> emit_log (projr (do_cpu_loglevel_switch user_level_arg cpu_user_example)) = []
   \<and> trace_start (stats (projr (do_cpu_loglevel_switch user_level_arg cpu_user_example)))
       = trace_start (stats cpu_user_example)"
proof -
  have act: "next_level_active user_level_arg cpu_user_example"
    by (simp add: next_level_active_def user_level_arg_def cpu_user_example_def
          get_cpu_log_entry_def cpu_example_fields entry_busy_def entry_zero_def
          LI_FLAG_HAS_INSTR_DATA_def LI_FLAG_MODE_SWITCH_def)
  have pc: "switch_pc user_level_arg cpu_user_example = Inr 0x2000"
    by (simp add: switch_pc_def user_level_arg_def)
  have mask: "qemu_loglevel_mask CPU_LOG_INSTR cpu_user_example"
    by (simp add: qemu_loglevel_mask_def cpu_user_example_def cpu_example_fields
          CPU_LOG_INSTR_nonzero)
  have ok: "ring_ok cpu_user_example"
    by (simp add: ring_ok_def cpu_user_example_def cpu_example_fields)
  have ev: "events (get_cpu_log_entry cpu_user_example)
      = [LOG_EVENT_STATE LOG_EVENT_STATE_START 0x1000, LOG_EVENT_REGDUMP 5]"
    by (simp add: get_cpu_log_entry_def cpu_user_example_def cpu_example_fields
          entry_busy_def entry_zero_def)
  have run: "do_cpu_loglevel_switch user_level_arg cpu_user_example =
      Inr (reset_log_buffer 0
            (cpu_user_example\<lparr>loglevel := QEMU_LOG_INSTR_LOGLEVEL_USER, loglevel_active := True\<rparr>))"
    using act mask
    by (simp add: do_cpu_loglevel_switch_def pc Let_def loglevel_switch_events_def)
       (simp add: user_level_arg_def cpu_user_example_def cpu_example_fields)
  have after: "loglevel (projr (do_cpu_loglevel_switch user_level_arg cpu_user_example))
        = QEMU_LOG_INSTR_LOGLEVEL_USER"
    "loglevel_active (projr (do_cpu_loglevel_switch user_level_arg cpu_user_example))"
    "starting (projr (do_cpu_loglevel_switch user_level_arg cpu_user_example)) = False"
    "events (get_cpu_log_entry (projr (do_cpu_loglevel_switch user_level_arg cpu_user_example))) = []"
    "free_log (projr (do_cpu_loglevel_switch user_level_arg cpu_user_example)) = [5]"
    "emit_log (projr (do_cpu_loglevel_switch user_level_arg cpu_user_example)) = []"
    "trace_start (stats (projr (do_cpu_loglevel_switch user_level_arg cpu_user_example)))
        = trace_start (stats cpu_user_example)"
    unfolding run sum.sel
    by (simp_all add: reset_log_buffer_eq get_cpu_log_entry_def cpu_user_example_def
          cpu_example_fields entry_busy_def entry_zero_def)
  have pre: "loglevel_active cpu_user_example" "starting cpu_user_example"
    "next_level user_level_arg \<noteq> loglevel cpu_user_example"
    by (simp_all add: user_level_arg_def cpu_user_example_def cpu_example_fields)
  from mask ok pre ev act run after show ?thesis
    by (intro conjI)
qed

text \<open>
  The sibling path.  The same CPU and the same switch, with \<open>starting\<close>
  clear: the stop half commits the STOP and the start half issues the
  start for the new level.
\<close>

lemma loglevel_switch_stop_then_start:
  "starting (projr (do_cpu_loglevel_switch user_level_arg (cpu_user_example\<lparr>starting := False\<rparr>)))
   \<and> trace_start (stats (projr (do_cpu_loglevel_switch user_level_arg
        (cpu_user_example\<lparr>starting := False\<rparr>)))) = 2
   \<and> events (get_cpu_log_entry (projr (do_cpu_loglevel_switch user_level_arg
        (cpu_user_example\<lparr>starting := False\<rparr>))))
       = [LOG_EVENT_STATE LOG_EVENT_STATE_START 0x2000, LOG_EVENT_REGDUMP 6]"
proof -
  let ?s = "cpu_user_example\<lparr>starting := False\<rparr>"
  have a1: "qemu_loglevel_mask CPU_LOG_INSTR ?s"
    by (simp add: qemu_loglevel_mask_def cpu_user_example_def cpu_example_fields
          CPU_LOG_INSTR_nonzero)
  have a2: "ring_ok ?s"
    by (simp add: ring_ok_def cpu_user_example_def cpu_example_fields)
  have a3: "switch_pc user_level_arg ?s = Inr 0x2000"
    by (simp add: switch_pc_def user_level_arg_def)
  have act: "next_level_active user_level_arg ?s"
    by (simp add: next_level_active_def user_level_arg_def cpu_user_example_def
          get_cpu_log_entry_def cpu_example_fields entry_busy_def entry_zero_def
          LI_FLAG_HAS_INSTR_DATA_def LI_FLAG_MODE_SWITCH_def)
  have a4: "\<not> (next_level user_level_arg = loglevel ?s
          \<and> loglevel_active ?s = next_level_active user_level_arg ?s)"
    by (simp add: user_level_arg_def cpu_user_example_def cpu_example_fields)
  have a5: "loglevel_active ?s" "\<not> starting ?s" "trace_start (stats ?s) = 1"
    "regdump_regs ?s = Some [\<lparr>reg_flags = 0, reg_name = ''x0'', gpr = 1\<rparr>]"
    "next_gpr ?s = 6"
    by (simp_all add: cpu_user_example_def cpu_example_fields)
  show ?thesis
    using loglevel_switch_effects [OF a1 a2 a3 a4] act a5 by simp
qed

text \<open>
  The degenerate slice (scenario S3 of the spec): logging is switched on
  and, before any commit, off again.  Nothing is emitted, \<open>trace_start\<close>
  has counted the start, \<open>trace_stop\<close> has not moved, and the current
  entry holds no event.
\<close>

lemma degenerate_slice:
  "\<not> isl (do_cpu_loglevel_switch all_level_arg cpu_idle_example)
 \<and> \<not> isl (do_cpu_loglevel_switch none_level_arg
            (projr (do_cpu_loglevel_switch all_level_arg cpu_idle_example)))
 \<and> emit_log (projr (do_cpu_loglevel_switch none_level_arg
            (projr (do_cpu_loglevel_switch all_level_arg cpu_idle_example)))) = []
 \<and> stats (projr (do_cpu_loglevel_switch none_level_arg
            (projr (do_cpu_loglevel_switch all_level_arg cpu_idle_example))))
     = \<lparr>entries_emitted = 0, trace_start = 2, trace_stop = 0\<rparr>
 \<and> events (get_cpu_log_entry (projr (do_cpu_loglevel_switch none_level_arg
            (projr (do_cpu_loglevel_switch all_level_arg cpu_idle_example))))) = []"
proof -
  define s1 where "s1 = projr (do_cpu_loglevel_switch all_level_arg cpu_idle_example)"
  have mask: "qemu_loglevel_mask CPU_LOG_INSTR cpu_idle_example"
    by (simp add: qemu_loglevel_mask_def cpu_idle_example_def cpu_example_fields
          CPU_LOG_INSTR_nonzero)
  have r1: "do_cpu_loglevel_switch all_level_arg cpu_idle_example =
      Inr (loglevel_switch_start 0x1000
             (cpu_idle_example\<lparr>loglevel := QEMU_LOG_INSTR_LOGLEVEL_ALL, loglevel_active := True\<rparr>))"
    using mask
    by (simp add: do_cpu_loglevel_switch_def switch_pc_def all_level_arg_def Let_def
          next_level_active_def loglevel_switch_events_def)
       (simp add: cpu_idle_example_def cpu_example_fields)
  have f1: "loglevel s1 = QEMU_LOG_INSTR_LOGLEVEL_ALL" "loglevel_active s1" "starting s1"
    "qemu_loglevel s1 = CPU_LOG_INSTR" "ring_head s1 = 1" "length (instr_info s1) = 4"
    "emit_log s1 = []" "stats s1 = \<lparr>entries_emitted = 0, trace_start = 2, trace_stop = 0\<rparr>"
    unfolding s1_def r1 sum.sel
    by (simp_all add: loglevel_switch_start_def Let_def inc_trace_start_def
          emit_regdump_event_def set_entry_def cpu_idle_example_def cpu_example_fields
          split: option.split)
  have r2: "do_cpu_loglevel_switch none_level_arg s1 =
      Inr (reset_log_buffer 1
             (s1\<lparr>loglevel := QEMU_LOG_INSTR_LOGLEVEL_NONE, loglevel_active := False\<rparr>))"
    by (simp add: do_cpu_loglevel_switch_def switch_pc_def none_level_arg_def Let_def
          next_level_active_def loglevel_switch_events_def qemu_loglevel_mask_def f1
          CPU_LOG_INSTR_nonzero)
  show ?thesis
    unfolding s1_def [symmetric] r2
    by (simp add: r1 get_cpu_log_entry_def f1) (simp add: reset_log_buffer_eq f1)
qed

subsection \<open>Global switch\<close>

lemma or_instr_keeps_user:
  assumes "(f :: 32 word) AND u \<noteq> 0"
  shows "(f OR i) AND u \<noteq> 0"
proof
  assume "(f OR i) AND u = 0"
  then have "(f AND u) OR (i AND u) = 0"
    by (simp add: bit.conj_disj_distrib2)
  then have "f AND u = 0"
    by (simp add: or_eq_0_iff)
  with assms show False by simp
qed

lemma global_switch_loop_eq:
  "global_switch_loop cpus f q =
     (if cpus = [] then f
      else if f AND CPU_LOG_INSTR_U \<noteq> 0 then f OR CPU_LOG_INSTR else f,
      q @ map (\<lambda>cpu. (cpu, Do_global_loglevel_switch,
                 \<lparr>next_level = level_of_flags f, arg_pc = None, global = True\<rparr>)) cpus)"
proof (induction cpus arbitrary: f q)
  case Nil
  then show ?case by simp
next
  case (Cons cpu cpus)
  show ?case
  proof (cases "f AND CPU_LOG_INSTR_U \<noteq> 0")
    case True
    then have u: "(f OR CPU_LOG_INSTR) AND CPU_LOG_INSTR_U \<noteq> 0"
      by (rule or_instr_keeps_user)
    then have lv: "level_of_flags (f OR CPU_LOG_INSTR) = QEMU_LOG_INSTR_LOGLEVEL_USER"
      "level_of_flags f = QEMU_LOG_INSTR_LOGLEVEL_USER"
      using True by (simp_all add: level_of_flags_def)
    show ?thesis
      using True u by (simp add: Cons.IH lv word_bw_assocs)
  next
    case False
    then show ?thesis
      by (simp add: Cons.IH level_of_flags_def)
  qed
qed

text \<open>
  C4 at the failing input.  With no CPU in the list the loop body never
  runs, and the body is where \<open>INSTR\<close> is added to the flag word: the
  word \<open>INSTR_U\<close> comes back as it went in, without the \<open>INSTR\<close> bit.
\<close>

theorem global_switch_no_cpu:
  "qemu_log_instr_global_switch [] CPU_LOG_INSTR_U = (CPU_LOG_INSTR_U, [])
   \<and> CPU_LOG_INSTR_U AND CPU_LOG_INSTR_U \<noteq> 0
   \<and> fst (qemu_log_instr_global_switch [] CPU_LOG_INSTR_U) AND CPU_LOG_INSTR = 0"
  by (simp add: qemu_log_instr_global_switch_def CPU_LOG_INSTR_U_def CPU_LOG_INSTR_def)

text \<open>
  With at least one CPU the function does what C4 says: the flag word gains
  \<open>INSTR\<close> when it has \<open>INSTR_U\<close>, and every CPU gets
  \<open>do_global_loglevel_switch\<close> queued with the level the word stands
  for.
\<close>

lemma global_switch_with_cpus:
  assumes "cpus \<noteq> []"
  shows "fst (qemu_log_instr_global_switch cpus f) =
           (if f AND CPU_LOG_INSTR_U \<noteq> 0 then f OR CPU_LOG_INSTR else f)"
    and "snd (qemu_log_instr_global_switch cpus f) =
           map (\<lambda>cpu. (cpu, Do_global_loglevel_switch,
                  \<lparr>next_level = level_of_flags f, arg_pc = None, global = True\<rparr>)) cpus"
  using assms by (simp_all add: qemu_log_instr_global_switch_def global_switch_loop_eq)


subsection \<open>Staged printf\<close>

lemma ctz64_31: "ctz64 0x80000000 = 31"
  by (simp add: ctz64_def upt_rec bit_numeral_simps)

text \<open>
  C8 at the failing input.  The staging area has its \<open>D\<close> slots and
  slot 31 is the only one staged.  The loop finds \<open>ndx = 31\<close> and evaluates \<open>1 << 31\<close> in
  \<open>int\<close>, which is undefined: the run does not end with the format
  rendered and the bitmap empty.  (\<open>qemu_log_gen_printf\<close> sets the bit
  with \<open>1ULL << ndx\<close>.)
\<close>

theorem printf_dump_bit31_undefined:
  "helper_qemu_log_printf_dump render
     (cpu_example\<lparr>fmts := replicate QEMU_LOG_PRINTF_BUF_DEPTH ''n=%d '',
                  printf_args := replicate (QEMU_LOG_PRINTF_BUF_DEPTH * QEMU_LOG_PRINTF_ARG_MAX) 0,
                  valid_entries := 0x80000000\<rparr>) = Inl Undefined_shift"
proof -
  have en: "qemu_log_instr_check_enabled
      (cpu_example\<lparr>fmts := replicate QEMU_LOG_PRINTF_BUF_DEPTH ''n=%d '',
                   printf_args := replicate (QEMU_LOG_PRINTF_BUF_DEPTH * QEMU_LOG_PRINTF_ARG_MAX) 0,
                   valid_entries := 0\<rparr>)"
    by (simp add: qemu_log_instr_check_enabled_def qemu_loglevel_mask_def cpu_example_fields
          CPU_LOG_INSTR_nonzero)
  have loop: "printf_dump_loop render fs args 0x80000000 buf = Inl Undefined_shift" for fs args buf
    by (subst printf_dump_loop.simps) (simp add: ctz64_31)
  show ?thesis
    using en by (simp add: helper_qemu_log_printf_dump_def Let_def loop)
qed

lemma ctz64_least:
  assumes "m < ctz64 w"
  shows "\<not> bit w m"
proof -
  let ?P = "\<lambda>i. \<not> bit w i"
  have tk: "takeWhile ?P [0..<64] = take (ctz64 w) [0..<64]"
    unfolding ctz64_def by (rule takeWhile_eq_take)
  have "ctz64 w \<le> 64"
    using length_takeWhile_le [of ?P "[0..<64]"] by (simp add: ctz64_def)
  with assms have "m \<in> set (take (ctz64 w) [0..<64])"
    by (simp add: take_upt)
  then have "m \<in> set (takeWhile ?P [0..<64])"
    by (simp only: tk)
  then show ?thesis
    by (rule set_takeWhileD [THEN conjunct2])
qed

lemma filter_bits_step:
  assumes "w \<noteq> (0 :: 64 word)"
  shows "filter (bit w) [0..<64] = ctz64 w # filter (bit (w XOR push_bit (ctz64 w) 1)) [0..<64]"
proof -
  define n where "n = ctz64 w"
  define w' where "w' = w XOR push_bit n 1"
  have n: "n < 64" "bit w n"
    using ctz64_bit [OF assms] by (simp_all add: n_def)
  have b: "bit w' i = (bit w i \<and> i \<noteq> n)" for i
    using n by (auto simp: w'_def bit_xor_iff bit_exp_iff dest: bit_imp_le_length)
  have split: "[0..<64] = [0..<n] @ n # [Suc n..<64]"
    using n(1) by (metis le0 upt_conv_Cons upt_add_eq_append less_imp_le_nat le_add_diff_inverse plus_nat.add_0)
  have z: "\<forall>i \<in> set [0..<n]. \<not> bit w i"
    using ctz64_least by (auto simp: n_def)
  then have z': "\<forall>i \<in> set [0..<n]. \<not> bit w' i"
    using b by blast
  have lo: "filter (bit w) [0..<n] = []" "filter (bit w') [0..<n] = []"
    using z z' by (simp_all only: filter_empty_conv)
  have hi: "filter (bit w') [Suc n..<64] = filter (bit w) [Suc n..<64]"
    by (rule filter_cong) (auto simp: b)
  have "filter (bit w) [0..<64] = filter (bit w) ([0..<n] @ n # [Suc n..<64])"
    using split by simp
  also have "\<dots> = n # filter (bit w) [Suc n..<64]"
    using n(2) lo(1) by simp
  finally have l: "filter (bit w) [0..<64] = n # filter (bit w) [Suc n..<64]" .
  have "filter (bit w') [0..<64] = filter (bit w') ([0..<n] @ n # [Suc n..<64])"
    using split by simp
  also have "\<dots> = filter (bit w) [Suc n..<64]"
    using lo(2) hi by (simp add: b)
  finally have "filter (bit w) [0..<64] = n # filter (bit w') [0..<64]"
    using l by simp
  then show ?thesis
    unfolding w'_def n_def .
qed

text \<open>
  For a bitmap whose set bits are all below 31 and inside the staging area,
  the loop renders the staged formats, each with the arguments of its slot,
  from the least significant bit upwards.
\<close>

lemma printf_dump_loop_low_bits:
  assumes "\<forall>i. bit valid i \<longrightarrow> i < 31 \<and> i < length fs"
  shows "printf_dump_loop render fs args valid buf =
           Inr (buf @ concat (map (\<lambda>i. render (fs ! i) (drop (i * QEMU_LOG_PRINTF_ARG_MAX) args))
                               (filter (bit valid) [0..<64])))"
  using assms
proof (induction render fs args valid buf rule: printf_dump_loop.induct)
  case (1 render fs args valid buf)
  show ?case
  proof (cases "valid = 0")
    case True
    then show ?thesis
      by (subst printf_dump_loop.simps) simp
  next
    case False
    let ?n = "ctz64 valid"
    let ?v' = "valid XOR push_bit ?n 1"
    have n: "bit valid ?n"
      using ctz64_bit [OF False] by simp
    with "1.prems" have lt: "?n < 31" "?n < length fs"
      by auto
    have b: "bit ?v' i \<Longrightarrow> bit valid i" for i
      using n by (auto simp: bit_xor_iff bit_exp_iff split: if_splits)
    then have pre: "\<forall>i. bit ?v' i \<longrightarrow> i < 31 \<and> i < length fs"
      using "1.prems" by blast
    have ih: "printf_dump_loop render fs args ?v'
          (buf @ render (fs ! ?n) (drop (?n * QEMU_LOG_PRINTF_ARG_MAX) args)) =
        Inr ((buf @ render (fs ! ?n) (drop (?n * QEMU_LOG_PRINTF_ARG_MAX) args)) @
             concat (map (\<lambda>i. render (fs ! i) (drop (i * QEMU_LOG_PRINTF_ARG_MAX) args))
                      (filter (bit ?v') [0..<64])))"
      using False lt by (intro "1.IH" [OF _ refl _ _ pre]) simp_all
    show ?thesis
      by (subst printf_dump_loop.simps, subst filter_bits_step [OF False])
         (use False lt ih in \<open>simp add: Let_def\<close>)
  qed
qed


text \<open>
  The helper itself on such a bitmap: it returns, the bitmap is empty
  afterwards, and the text buffer of the current entry gains the rendered
  formats when logging is enabled and nothing when it is not.
\<close>

lemma printf_dump_low_bits:
  assumes "ring_ok s"
    and "\<forall>i. bit (valid_entries s) i \<longrightarrow> i < 31 \<and> i < length (fmts s)"
  shows "\<not> isl (helper_qemu_log_printf_dump render s)"
    and "valid_entries (projr (helper_qemu_log_printf_dump render s)) = 0"
    and "txt_buffer (get_cpu_log_entry (projr (helper_qemu_log_printf_dump render s))) =
           txt_buffer (get_cpu_log_entry s) @
           (if qemu_log_instr_check_enabled s
            then concat (map (\<lambda>i. render (fmts s ! i)
                                (drop (i * QEMU_LOG_PRINTF_ARG_MAX) (printf_args s)))
                          (filter (bit (valid_entries s)) [0..<64]))
            else [])"
proof -
  have en: "qemu_log_instr_check_enabled (s\<lparr>valid_entries := 0\<rparr>) = qemu_log_instr_check_enabled s"
    by (simp add: qemu_log_instr_check_enabled_def qemu_loglevel_mask_def)
  have e: "get_cpu_log_entry (s\<lparr>valid_entries := 0\<rparr>) = get_cpu_log_entry s"
    by (simp add: get_cpu_log_entry_def)
  have h: "ring_head s < length (instr_info s)"
    using assms(1) by (simp add: ring_ok_def)
  let ?txt = "txt_buffer (get_cpu_log_entry s) @
      concat (map (\<lambda>i. render (fmts s ! i) (drop (i * QEMU_LOG_PRINTF_ARG_MAX) (printf_args s)))
               (filter (bit (valid_entries s)) [0..<64]))"
  have loop: "printf_dump_loop render (fmts s) (printf_args s) (valid_entries s)
      (txt_buffer (get_cpu_log_entry s)) = Inr ?txt"
    using assms(2) by (rule printf_dump_loop_low_bits)
  have hv: "helper_qemu_log_printf_dump render s =
      Inr (if qemu_log_instr_check_enabled s
           then set_entry (ring_head s) ((get_cpu_log_entry s)\<lparr>txt_buffer := ?txt\<rparr>)
                  (s\<lparr>valid_entries := 0\<rparr>)
           else s\<lparr>valid_entries := 0\<rparr>)"
    by (simp add: helper_qemu_log_printf_dump_def Let_def en e loop)
  show "\<not> isl (helper_qemu_log_printf_dump render s)"
    by (simp add: hv)
  show "valid_entries (projr (helper_qemu_log_printf_dump render s)) = 0"
    by (simp add: hv set_entry_def)
  show "txt_buffer (get_cpu_log_entry (projr (helper_qemu_log_printf_dump render s))) =
           txt_buffer (get_cpu_log_entry s) @
           (if qemu_log_instr_check_enabled s
            then concat (map (\<lambda>i. render (fmts s ! i)
                                (drop (i * QEMU_LOG_PRINTF_ARG_MAX) (printf_args s)))
                          (filter (bit (valid_entries s)) [0..<64]))
            else [])"
    using h by (simp add: hv set_entry_def get_cpu_log_entry_def)
qed

end
